theory Spec2Isabelle
  imports Complex_Main "HOL-Library.Word" "HOL-Library.AList" "HOL-Library.Sublist"
begin

unbundle bit_operations_syntax

section \<open>JavaScript values\<close>

text \<open>
  A JavaScript string is a sequence of UTF-16 code units: \<open>length\<close>, \<open>charCodeAt\<close>,
  \<open>slice\<close> and a regular expression without the \<open>u\<close> flag all count code units.
  Numbers are modelled as reals; the 32-bit integer arithmetic of the embedding
  (\<open>^\<close>, \<open><<\<close>, \<open>>>>\<close>, \<open>Math.imul\<close>) is modelled on \<open>32 word\<close>.
\<close>

type_synonym code_unit = "16 word"
type_synonym jsstring = "code_unit list"

definition utf16 :: "string \<Rightarrow> jsstring" where
  "utf16 s = map (\<lambda>c. of_nat (of_char c)) s"

text \<open>
  The characters matched by \<open>\s\<close> and stripped by \<open>trim()\<close>: ECMAScript's WhiteSpace
  and LineTerminator code points.
\<close>

definition js_space :: "code_unit \<Rightarrow> bool" where
  "js_space c \<longleftrightarrow>
     c \<in> {0x09, 0x0A, 0x0B, 0x0C, 0x0D, 0x20, 0xA0, 0x1680, 0x2028, 0x2029, 0x202F, 0x205F,
          0x3000, 0xFEFF} \<or> (0x2000 \<le> c \<and> c \<le> 0x200A)"

definition trim :: "jsstring \<Rightarrow> jsstring" where
  "trim s = rev (dropWhile js_space (rev (dropWhile js_space s)))"

section \<open>Chunker (process-file)\<close>

text \<open>
  \<open>splitIntoChunks(text) = text.match(/(.|\n){1,500}/g) || []\<close>.
  Without the \<open>s\<close> flag the dot matches every code unit except the line terminators
  LF, CR, U+2028 and U+2029; the alternative \<open>\n\<close> adds LF back, so one repetition of the
  group matches every code unit except CR, U+2028 and U+2029.
\<close>

definition dot_or_newline :: "code_unit \<Rightarrow> bool" where
  "dot_or_newline c \<longleftrightarrow> c \<noteq> 0x0D \<and> c \<noteq> 0x2028 \<and> c \<noteq> 0x2029"

text \<open>
  The global match scans from the left. At each position the greedy quantifier takes as many
  matching code units as there are, up to 500; the next search starts after the match. Where
  not even one code unit matches, the search moves one position on and that code unit is in
  no chunk. No match at all gives \<open>null\<close>, replaced by the empty array.
\<close>

function splitIntoChunks :: "jsstring \<Rightarrow> jsstring list" where
  "splitIntoChunks text =
     (if text = [] then []
      else (let m = takeWhile dot_or_newline (take 500 text)
            in if m = [] then splitIntoChunks (tl text)
               else m # splitIntoChunks (drop (length m) text)))"
  by pat_completeness auto
termination
  by (relation "measure length") (auto simp: Let_def)

declare splitIntoChunks.simps [simp del]

section \<open>Embedder\<close>

subsection \<open>process-file\<close>

text \<open>
  The seed loop: \<open>seed ^= text.charCodeAt(i); seed = Math.imul(seed, 16777619) >>> 0\<close>,
  starting from \<open>2166136261 >>> 0\<close>.
\<close>

definition fnv_seed :: "jsstring \<Rightarrow> 32 word" where
  "fnv_seed text = fold (\<lambda>c seed. (seed XOR ucast c) * 16777619) text 2166136261"

text \<open>
  One pass of the dimension loop: the seed is mixed with \<open>i + 0x9e3779b9\<close>, scrambled by
  the three shifts, and \<open>((s % 10000) / 10000) * 2 - 1\<close> is stored.
\<close>

definition xorshift :: "32 word \<Rightarrow> 32 word" where
  "xorshift s0 =
     (let s1 = s0 XOR push_bit 13 s0;
          s2 = s1 XOR drop_bit 17 s1;
          s3 = s2 XOR push_bit 5 s2
      in s3)"

definition dim_value :: "32 word \<Rightarrow> nat \<Rightarrow> real" where
  "dim_value seed i =
     (let s = xorshift (seed XOR word_of_nat (i + 0x9e3779b9))
      in (real (unat s mod 10000) / 10000) * 2 - 1)"

text \<open>
  The normalisation: \<open>norm\<close> accumulates the squares, \<open>Math.sqrt(norm) || 1\<close> replaces a
  zero root by 1, and every component is divided by it.
\<close>

definition sum_squares :: "real list \<Rightarrow> real" where
  "sum_squares vec = fold (\<lambda>v norm. norm + v * v) vec 0"

definition l2_normalize :: "real list \<Rightarrow> real list" where
  "l2_normalize vec =
     (let norm = sqrt (sum_squares vec);
          norm = (if norm = 0 then 1 else norm)
      in map (\<lambda>v. v / norm) vec)"

definition localEmbedding :: "jsstring \<Rightarrow> real list" where
  "localEmbedding text =
     (let dim = 768;
          seed = fnv_seed text;
          vec = map (dim_value seed) [0..<dim]
      in l2_normalize vec)"

subsection \<open>hybrid-search\<close>

text \<open>The copy of the embedding function in the query handler, transcribed on its own.\<close>

definition localEmbedding_query :: "jsstring \<Rightarrow> real list" where
  "localEmbedding_query text =
     (let dim = 768;
          seed = foldl (\<lambda>seed c. (seed XOR ucast c) * 16777619) (2166136261 :: 32 word) text;
          vec = map (\<lambda>i.
                  let s = seed XOR word_of_nat (i + 0x9e3779b9);
                      s = s XOR push_bit 13 s;
                      s = s XOR drop_bit 17 s;
                      s = s XOR push_bit 5 s
                  in (real (unat s mod 10000) / 10000) * 2 - 1) [0..<dim];
          norm = foldl (\<lambda>norm v. norm + v * v) 0 vec;
          norm = (if sqrt norm = 0 then 1 else sqrt norm)
      in map (\<lambda>v. v / norm) vec)"

text \<open>The Euclidean norm, by which the embeddings are measured.\<close>

definition l2_norm :: "real list \<Rightarrow> real" where
  "l2_norm v = sqrt (\<Sum>x\<leftarrow>v. x * x)"

section \<open>Data model\<close>

text \<open>
  A JSON value, as far as the handlers look into it: \<open>typeof value === "string"\<close> and
  \<open>Array.isArray\<close> are the only tests made on metadata values.
\<close>

datatype json =
    JNull
  | JBool bool
  | JNum real
  | JStr jsstring
  | JArr "json list"
  | JObj "(jsstring \<times> json) list"

text \<open>\<open>Record<string, unknown> | null\<close>: \<open>None\<close> is \<open>null\<close>, a missing key is \<open>undefined\<close>.\<close>

type_synonym NodeMetadata = "(jsstring \<rightharpoonup> json) option"

record NodeRecord =
  id_node :: jsstring
  node_type :: jsstring
  content :: jsstring
  embedding :: "real list"
  metadata :: NodeMetadata

record EdgeRecord =
  source_node_id :: jsstring
  target_node_id :: jsstring
  weight :: real

record VectorResult =
  nodeId :: jsstring
  nodeType :: jsstring
  content :: jsstring
  vectorScore :: real

text \<open>
  The fields \<open>matchingSentence\<close> and \<open>matchingWords\<close> of a graph result are left out: they are
  computed from the target's content and the query and read by no later step.
\<close>

record GraphResult =
  nodeId :: jsstring
  sourceNode :: jsstring
  graphScore :: real
  distance :: nat
  path :: "jsstring list"
  pathLabels :: "jsstring list"
  nodeType :: "jsstring option"
  content :: "jsstring option"

record CombinedResult =
  nodeId :: jsstring
  nodeType :: "jsstring option"
  content :: "jsstring option"
  vectorScore :: real
  graphScore :: real
  connections :: nat

record HybridResult = CombinedResult +
  hybridScore :: real

datatype error = Error jsstring | TypeError

section \<open>Array helpers\<close>

text \<open>
  \<open>Array.prototype.sort(cmp)\<close> is stable; with a comparator that is a difference of numbers
  it is the stable sort by that number. It is modelled as the insertion sort that puts an
  element before the first element it does not have to follow.
\<close>

fun insert_sorted :: "('a \<Rightarrow> 'a \<Rightarrow> real) \<Rightarrow> 'a \<Rightarrow> 'a list \<Rightarrow> 'a list" where
  "insert_sorted cmp x [] = [x]"
| "insert_sorted cmp x (y # ys) =
     (if cmp x y \<le> 0 then x # y # ys else y # insert_sorted cmp x ys)"

definition js_sort :: "('a \<Rightarrow> 'a \<Rightarrow> real) \<Rightarrow> 'a list \<Rightarrow> 'a list" where
  "js_sort cmp xs = foldr (insert_sorted cmp) xs []"

text \<open>
  \<open>xs.slice(0, end)\<close> for an integer \<open>end\<close>: a negative \<open>end\<close> counts from the end of the
  array.
\<close>

definition js_slice :: "'a list \<Rightarrow> int \<Rightarrow> 'a list" where
  "js_slice xs end =
     (if end < 0 then take (nat (int (length xs) + end)) xs else take (nat end) xs)"

section \<open>Cosine similarity\<close>

text \<open>
  The loop runs over the indices of \<open>a\<close> and reads \<open>b[i]\<close>. In JavaScript the result is
  \<open>NaN\<close> when \<open>b\<close> is shorter than \<open>a\<close> (an \<open>undefined\<close> component) or when one of the two
  sums of squares is zero (\<open>0 / 0\<close>); the reals have no \<open>NaN\<close>, and \<open>cosine_defined\<close> is the
  condition under which the real number below is the number the code computes.
\<close>

definition cosine :: "real list \<Rightarrow> real list \<Rightarrow> real" where
  "cosine a b =
     (let (dot, na, nb) =
            fold (\<lambda>i (dot, na, nb). (dot + a ! i * b ! i, na + a ! i * a ! i, nb + b ! i * b ! i))
              [0..<length a] (0, 0, 0)
      in dot / (sqrt na * sqrt nb))"

definition cosine_defined :: "real list \<Rightarrow> real list \<Rightarrow> bool" where
  "cosine_defined a b \<longleftrightarrow>
     length a \<le> length b \<and> sum_squares a \<noteq> 0 \<and> sum_squares (take (length a) b) \<noteq> 0"

section \<open>Label resolver (hybrid-search)\<close>

fun preferred_label :: "(jsstring \<rightharpoonup> json) \<Rightarrow> jsstring list \<Rightarrow> jsstring option" where
  "preferred_label md [] = None"
| "preferred_label md (key # keys) =
     (case md key of
        Some (JStr v) \<Rightarrow> if trim v \<noteq> [] then Some (trim v) else preferred_label md keys
      | _ \<Rightarrow> preferred_label md keys)"

fun keyword_label :: "json list \<Rightarrow> jsstring option" where
  "keyword_label [] = None"
| "keyword_label (keyword # keywords) =
     (case keyword of
        JStr v \<Rightarrow> if trim v \<noteq> [] then Some (trim v) else keyword_label keywords
      | _ \<Rightarrow> keyword_label keywords)"

definition preferredKeys :: "jsstring list" where
  "preferredKeys =
     [utf16 ''label'', utf16 ''title'', utf16 ''name'', utf16 ''keyword'', utf16 ''heading'',
      utf16 ''topic'']"

definition extractMetadataLabel :: "NodeMetadata \<Rightarrow> jsstring option" where
  "extractMetadataLabel md =
     (case md of
        None \<Rightarrow> None
      | Some m \<Rightarrow>
          (case preferred_label m preferredKeys of
             Some v \<Rightarrow> Some v
           | None \<Rightarrow>
               (case m (utf16 ''keywords'') of
                  Some (JArr keywords) \<Rightarrow> keyword_label keywords
                | _ \<Rightarrow> None)))"

text \<open>\<open>replace(/\s+/g, " ")\<close>: every maximal run of white space becomes one space.\<close>

function collapse_spaces :: "jsstring \<Rightarrow> jsstring" where
  "collapse_spaces [] = []"
| "collapse_spaces (c # cs) =
     (if js_space c then 0x20 # collapse_spaces (dropWhile js_space cs)
      else c # collapse_spaces cs)"
  by pat_completeness auto
termination
  by (relation "measure length") (auto simp: less_Suc_eq_le length_dropWhile_le)

text \<open>\<open>replace(/[\r\n]/g, " ")\<close>.\<close>

definition replace_line_breaks :: "jsstring \<Rightarrow> jsstring" where
  "replace_line_breaks s = map (\<lambda>c. if c = 0x0D \<or> c = 0x0A then 0x20 else c) s"

text \<open>\<open>split(" ")\<close> and \<open>join(" ")\<close>.\<close>

fun split_space :: "jsstring \<Rightarrow> jsstring list" where
  "split_space [] = [[]]"
| "split_space (c # cs) =
     (if c = 0x20 then [] # split_space cs
      else (case split_space cs of
              w # ws \<Rightarrow> (c # w) # ws
            | [] \<Rightarrow> [[c]]))"

fun join_space :: "jsstring list \<Rightarrow> jsstring" where
  "join_space [] = []"
| "join_space [w] = w"
| "join_space (w # ws) = w @ [0x20] @ join_space ws"

definition LABEL_WORD_LIMIT :: nat where
  "LABEL_WORD_LIMIT = 3"

definition LABEL_CHAR_LIMIT :: nat where
  "LABEL_CHAR_LIMIT = 40"

text \<open>
  The second half of \<open>deriveNodeLabel\<close>, reached when the metadata gives no label: the
  first three words of the cleaned content, cut at 40 code units, or the node id.
\<close>

definition content_label :: "NodeRecord \<Rightarrow> jsstring" where
  "content_label node =
     (let cleanedContent =
            trim (replace_line_breaks (collapse_spaces (NodeRecord.content node)))
      in if cleanedContent \<noteq> [] then
           (let words = filter (\<lambda>w. w \<noteq> []) (split_space cleanedContent);
                snippet = join_space (take LABEL_WORD_LIMIT words)
            in if length snippet > LABEL_CHAR_LIMIT
               then trim (take LABEL_CHAR_LIMIT snippet) @ utf16 ''...''
               else if snippet \<noteq> [] then snippet else id_node node)
         else id_node node)"

text \<open>The argument is \<open>None\<close> where the caller passes \<open>undefined\<close> (a failed lookup).\<close>

definition deriveNodeLabel :: "NodeRecord option \<Rightarrow> jsstring" where
  "deriveNodeLabel node_opt =
     (case node_opt of
        None \<Rightarrow> utf16 ''Unknown''
      | Some node \<Rightarrow>
          (case extractMetadataLabel (metadata node) of
             Some metadataLabel \<Rightarrow>
               if metadataLabel \<noteq> [] then metadataLabel else content_label node
           | None \<Rightarrow> content_label node))"

section \<open>Query engine (hybrid-search)\<close>

record SearchRequest =
  query :: jsstring
  fileId :: jsstring
  vectorWeight :: real
  graphWeight :: real
  topK :: int

text \<open>
  The store is an external collaborator: the three selects the handler makes, each returning
  the rows (\<open>data\<close>) or \<open>None\<close> for \<open>data: null\<close>.
\<close>

record Store =
  select_nodes_by_file :: "jsstring \<Rightarrow> NodeRecord list option"
  select_edges_by_source :: "jsstring list \<Rightarrow> EdgeRecord list option"
  select_nodes_by_id :: "jsstring list \<Rightarrow> NodeRecord list option"

record GraphNode =
  id_graph :: jsstring
  nodeType :: jsstring
  content :: jsstring
  label :: jsstring

record GraphLink =
  source :: jsstring
  target :: jsstring
  weight :: real

record SearchResponse =
  vectorResults :: "VectorResult list"
  graphResults :: "GraphResult list"
  hybridResults :: "HybridResult list"
  graphVisualization_nodes :: "GraphNode list"
  graphVisualization_links :: "GraphLink list"

text \<open>Step 3: score every node, sort by descending score, keep the first \<open>topK\<close>.\<close>

definition scored :: "real list \<Rightarrow> NodeRecord \<Rightarrow> VectorResult" where
  "scored queryEmbedding node =
     \<lparr>VectorResult.nodeId = id_node node,
      VectorResult.nodeType = node_type node,
      VectorResult.content = NodeRecord.content node,
      VectorResult.vectorScore = cosine queryEmbedding (embedding node)\<rparr>"

definition vector_search :: "real list \<Rightarrow> NodeRecord list \<Rightarrow> int \<Rightarrow> VectorResult list" where
  "vector_search queryEmbedding typedNodes k =
     js_slice
       (js_sort (\<lambda>a b. VectorResult.vectorScore b - VectorResult.vectorScore a)
          (map (scored queryEmbedding) typedNodes))
       k"

text \<open>\<open>new Map(entries)\<close> and \<open>nodeLookup.set\<close>: a later node with the same id replaces.\<close>

definition set_nodes :: "NodeRecord list \<Rightarrow> (jsstring \<rightharpoonup> NodeRecord) \<Rightarrow> (jsstring \<rightharpoonup> NodeRecord)" where
  "set_nodes ns nodeLookup = fold (\<lambda>node m. m(id_node node \<mapsto> node)) ns nodeLookup"

text \<open>A \<open>Set\<close> keeps its elements in insertion order.\<close>

definition set_add :: "'a \<Rightarrow> 'a list \<Rightarrow> 'a list" where
  "set_add x s = (if x \<in> set s then s else s @ [x])"

definition edge_node_ids :: "EdgeRecord list \<Rightarrow> jsstring list" where
  "edge_node_ids typedEdges =
     fold (\<lambda>edge s. set_add (target_node_id edge) (set_add (source_node_id edge) s))
       typedEdges []"

text \<open>Step 4: one graph result per fetched edge.\<close>

definition graph_result :: "(jsstring \<rightharpoonup> NodeRecord) \<Rightarrow> EdgeRecord \<Rightarrow> GraphResult" where
  "graph_result nodeLookup edge =
     (let p = [source_node_id edge, target_node_id edge];
          labels = map (\<lambda>i. deriveNodeLabel (nodeLookup i)) p
      in \<lparr>GraphResult.nodeId = target_node_id edge,
          sourceNode = source_node_id edge,
          GraphResult.graphScore = EdgeRecord.weight edge,
          distance = 1,
          path = p,
          pathLabels = labels,
          GraphResult.nodeType = map_option node_type (nodeLookup (target_node_id edge)),
          GraphResult.content = map_option NodeRecord.content (nodeLookup (target_node_id edge))\<rparr>)"

text \<open>
  Step 5. The \<open>Map\<close> \<open>combined\<close> is an association list in insertion order: \<open>set\<close> on a key
  already present replaces the value where it stands, on a new key appends.
\<close>

type_synonym combined_map = "(jsstring \<times> CombinedResult) list"

definition vector_entry :: "VectorResult \<Rightarrow> CombinedResult" where
  "vector_entry v =
     \<lparr>CombinedResult.nodeId = VectorResult.nodeId v,
      CombinedResult.nodeType = Some (VectorResult.nodeType v),
      CombinedResult.content = Some (VectorResult.content v),
      CombinedResult.vectorScore = VectorResult.vectorScore v,
      CombinedResult.graphScore = 0,
      connections = 0\<rparr>"

definition add_vector_result :: "VectorResult \<Rightarrow> combined_map \<Rightarrow> combined_map" where
  "add_vector_result v combined = AList.update (VectorResult.nodeId v) (vector_entry v) combined"

definition graph_entry :: "(jsstring \<rightharpoonup> NodeRecord) \<Rightarrow> GraphResult \<Rightarrow> CombinedResult" where
  "graph_entry nodeLookup g =
     \<lparr>CombinedResult.nodeId = GraphResult.nodeId g,
      CombinedResult.nodeType = map_option node_type (nodeLookup (GraphResult.nodeId g)),
      CombinedResult.content = map_option NodeRecord.content (nodeLookup (GraphResult.nodeId g)),
      CombinedResult.vectorScore = 0,
      CombinedResult.graphScore = GraphResult.graphScore g,
      connections = 1\<rparr>"

definition merge_graph_result ::
  "(jsstring \<rightharpoonup> NodeRecord) \<Rightarrow> GraphResult \<Rightarrow> combined_map \<Rightarrow> combined_map" where
  "merge_graph_result nodeLookup g combined =
     (case map_of combined (GraphResult.nodeId g) of
        Some existing \<Rightarrow>
          AList.update (GraphResult.nodeId g)
            (existing\<lparr>CombinedResult.graphScore :=
                         max (CombinedResult.graphScore existing) (GraphResult.graphScore g),
                       connections := connections existing + 1\<rparr>)
            combined
      | None \<Rightarrow> AList.update (GraphResult.nodeId g) (graph_entry nodeLookup g) combined)"

definition merge_results ::
  "(jsstring \<rightharpoonup> NodeRecord) \<Rightarrow> VectorResult list \<Rightarrow> GraphResult list \<Rightarrow> combined_map" where
  "merge_results nodeLookup vs gs =
     fold (merge_graph_result nodeLookup) gs (fold add_vector_result vs [])"

definition with_hybrid_score :: "real \<Rightarrow> real \<Rightarrow> CombinedResult \<Rightarrow> HybridResult" where
  "with_hybrid_score vw gw result =
     \<lparr>CombinedResult.nodeId = CombinedResult.nodeId result,
      CombinedResult.nodeType = CombinedResult.nodeType result,
      CombinedResult.content = CombinedResult.content result,
      CombinedResult.vectorScore = CombinedResult.vectorScore result,
      CombinedResult.graphScore = CombinedResult.graphScore result,
      connections = connections result,
      hybridScore = CombinedResult.vectorScore result * vw + CombinedResult.graphScore result * gw\<rparr>"

definition hybrid_rank :: "real \<Rightarrow> real \<Rightarrow> int \<Rightarrow> combined_map \<Rightarrow> HybridResult list" where
  "hybrid_rank vw gw k combined =
     js_slice
       (js_sort (\<lambda>a b. hybridScore b - hybridScore a)
          (map (with_hybrid_score vw gw) (map snd combined)))
       k"

text \<open>
  The node lookup: the nodes of the file by id, then the nodes of the fetched edges that are
  not among them, fetched by id when there are any.
\<close>

definition node_lookup ::
  "Store \<Rightarrow> NodeRecord list \<Rightarrow> EdgeRecord list \<Rightarrow> (jsstring \<rightharpoonup> NodeRecord)" where
  "node_lookup store typedNodes typedEdges =
     (let nodeLookup = set_nodes typedNodes Map.empty;
          missingNodeIds = filter (\<lambda>i. nodeLookup i = None) (edge_node_ids typedEdges)
      in if missingNodeIds \<noteq> [] then
           set_nodes (case select_nodes_by_id store missingNodeIds of
                        None \<Rightarrow> [] | Some extraNodes \<Rightarrow> extraNodes) nodeLookup
         else nodeLookup)"

text \<open>Step 4, the select: the edges whose source is one of the vector results.\<close>

definition fetch_edges :: "Store \<Rightarrow> VectorResult list \<Rightarrow> EdgeRecord list" where
  "fetch_edges store vs =
     (let topNodeIds = map VectorResult.nodeId vs
      in case select_edges_by_source store topNodeIds of None \<Rightarrow> [] | Some es \<Rightarrow> es)"

text \<open>Steps 3 to 6, run once the file scope is known to have nodes.\<close>

definition search_response ::
  "Store \<Rightarrow> SearchRequest \<Rightarrow> real list \<Rightarrow> NodeRecord list \<Rightarrow> SearchResponse" where
  "search_response store req queryEmbedding typedNodes =
     (let vs = vector_search queryEmbedding typedNodes (topK req);
          typedEdges = fetch_edges store vs;
          nodeLookup = node_lookup store typedNodes typedEdges;
          gs = map (graph_result nodeLookup) typedEdges;
          combined = merge_results nodeLookup vs gs;
          hs = hybrid_rank (vectorWeight req) (graphWeight req) (topK req) combined;
          graphNodes = map (\<lambda>node. \<lparr>id_graph = id_node node,
                                     GraphNode.nodeType = node_type node,
                                     GraphNode.content = NodeRecord.content node,
                                     label = deriveNodeLabel (Some node)\<rparr>) typedNodes;
          graphLinks = map (\<lambda>edge. \<lparr>source = source_node_id edge,
                                     target = target_node_id edge,
                                     GraphLink.weight = EdgeRecord.weight edge\<rparr>) typedEdges
      in \<lparr>vectorResults = vs, graphResults = gs, hybridResults = hs,
          graphVisualization_nodes = graphNodes,
          graphVisualization_links = graphLinks\<rparr>)"

text \<open>
  The handler. The query is embedded first; a file scope without nodes (or a select that
  returns no data) throws, and the \<open>catch\<close> answers with the message alone.
\<close>

definition hybrid_search :: "Store \<Rightarrow> SearchRequest \<Rightarrow> error + SearchResponse" where
  "hybrid_search store req =
     (let queryEmbedding = localEmbedding_query (query req)
      in case select_nodes_by_file store (SearchRequest.fileId req) of
           None \<Rightarrow> Inl (Error (utf16 ''No nodes found for this file''))
         | Some typedNodes \<Rightarrow>
             if typedNodes = [] then Inl (Error (utf16 ''No nodes found for this file''))
             else Inr (search_response store req queryEmbedding typedNodes))"

section \<open>Ingestion pipeline (process-file)\<close>

record EdgeRow = EdgeRecord +
  edge_type :: jsstring

text \<open>
  The state the handler works on: the uploaded texts by file name, the status of each file
  row, the node rows with their file id, the edge rows, and the ids the database hands out
  (\<open>gen_random_uuid()\<close>), the next one being number \<open>next_id\<close>.
\<close>

record Database =
  uploads :: "jsstring \<rightharpoonup> jsstring"
  files_status :: "jsstring \<rightharpoonup> jsstring"
  nodes_table :: "(jsstring \<times> NodeRecord) list"
  edges_table :: "EdgeRow list"
  generated_ids :: "nat \<Rightarrow> jsstring"
  next_id :: nat

record IngestRequest =
  fileId :: jsstring
  fileName :: jsstring

record IngestResponse =
  success :: bool
  nodesCreated :: nat
  edgesCreated :: nat

text \<open>
  \<open>insert({file_id, node_type: "text", content, embedding}).select().single()\<close>: the row is
  stored with a fresh id and the default metadata \<open>{}\<close>, and returned.
\<close>

definition insert_node :: "jsstring \<Rightarrow> jsstring \<Rightarrow> real list \<Rightarrow> Database \<Rightarrow> NodeRecord \<times> Database" where
  "insert_node fid chunk emb db =
     (let node = \<lparr>id_node = generated_ids db (next_id db),
                  node_type = utf16 ''text'',
                  NodeRecord.content = chunk,
                  embedding = emb,
                  metadata = Some Map.empty\<rparr>
      in (node, db\<lparr>nodes_table := nodes_table db @ [(fid, node)], next_id := next_id db + 1\<rparr>))"

text \<open>The loop over the chunks: the state is \<open>embeddings\<close>, \<open>nodes\<close> and the database.\<close>

definition embed_chunk ::
  "jsstring \<Rightarrow> jsstring \<Rightarrow> real list list \<times> NodeRecord list \<times> Database
     \<Rightarrow> real list list \<times> NodeRecord list \<times> Database" where
  "embed_chunk fid chunk st =
     (case st of (embeddings, nodes, db) \<Rightarrow>
        (let emb = localEmbedding chunk;
             (node, db') = insert_node fid chunk emb db
         in (embeddings @ [emb], nodes @ [node], db')))"

text \<open>
  The edge construction: for node \<open>i\<close> the scores of all other nodes in index order, sorted
  by descending similarity, the first five kept.
\<close>

definition node_scores :: "NodeRecord list \<Rightarrow> real list list \<Rightarrow> nat \<Rightarrow> (nat \<times> real) list" where
  "node_scores nodes embeddings i =
     map (\<lambda>j. (j, cosine (embeddings ! i) (embeddings ! j)))
       (filter (\<lambda>j. \<not> i = j) [0..<length nodes])"

definition top5 :: "NodeRecord list \<Rightarrow> real list list \<Rightarrow> nat \<Rightarrow> (nat \<times> real) list" where
  "top5 nodes embeddings i =
     js_slice (js_sort (\<lambda>a b. snd b - snd a) (node_scores nodes embeddings i)) 5"

definition node_edges :: "NodeRecord list \<Rightarrow> real list list \<Rightarrow> nat \<Rightarrow> EdgeRow list" where
  "node_edges nodes embeddings i =
     map (\<lambda>t. \<lparr>source_node_id = id_node (nodes ! i),
               target_node_id = id_node (nodes ! fst t),
               EdgeRecord.weight = snd t,
               edge_type = utf16 ''semantic''\<rparr>)
       (top5 nodes embeddings i)"

definition build_edges :: "NodeRecord list \<Rightarrow> real list list \<Rightarrow> EdgeRow list" where
  "build_edges nodes embeddings = concat (map (node_edges nodes embeddings) [0..<length nodes])"

text \<open>
  The handler. A file name with no upload gives \<open>file = null\<close> and \<open>file.text()\<close> throws a
  \<open>TypeError\<close>. The status update touches the file row only if there is one.
\<close>

definition process_file :: "Database \<Rightarrow> IngestRequest \<Rightarrow> (error + IngestResponse) \<times> Database" where
  "process_file db req =
     (case uploads db (fileName req) of
        None \<Rightarrow> (Inl TypeError, db)
      | Some txt \<Rightarrow>
          (let chunks = splitIntoChunks txt;
               (embeddings, nodes, db1) =
                  fold (embed_chunk (IngestRequest.fileId req)) chunks ([], [], db);
               edges = build_edges nodes embeddings;
               db2 = db1\<lparr>edges_table := edges_table db1 @ edges\<rparr>;
               db3 = db2\<lparr>files_status :=
                           (case files_status db2 (IngestRequest.fileId req) of
                              None \<Rightarrow> files_status db2
                            | Some _ \<Rightarrow>
                                (files_status db2)(IngestRequest.fileId req \<mapsto> utf16 ''completed''))\<rparr>
           in (Inr \<lparr>success = True, nodesCreated = length nodes,
                     edgesCreated = length edges\<rparr>, db3)))"

section \<open>The label rules in words\<close>

text \<open>
  The strings a node's metadata offers, in priority order: the string values of the fields
  \<open>label\<close>, \<open>title\<close>, \<open>name\<close>, \<open>keyword\<close>, \<open>heading\<close>, \<open>topic\<close>, then the strings of the array
  \<open>keywords\<close>.
\<close>

definition metadata_strings :: "NodeMetadata \<Rightarrow> jsstring list" where
  "metadata_strings md =
     (case md of
        None \<Rightarrow> []
      | Some m \<Rightarrow>
          concat (map (\<lambda>key. case m key of Some (JStr v) \<Rightarrow> [v] | _ \<Rightarrow> []) preferredKeys)
          @ (case m (utf16 ''keywords'') of
               Some (JArr keywords) \<Rightarrow>
                 concat (map (\<lambda>keyword. case keyword of JStr v \<Rightarrow> [v] | _ \<Rightarrow> []) keywords)
             | _ \<Rightarrow> []))"

text \<open>The words of a text: its maximal runs of code units that are not white space.\<close>

function words_of :: "jsstring \<Rightarrow> jsstring list" where
  "words_of s =
     (if s = [] then []
      else if js_space (hd s) then words_of (dropWhile js_space s)
      else takeWhile (\<lambda>c. \<not> js_space c) s # words_of (dropWhile (\<lambda>c. \<not> js_space c) s))"
  by pat_completeness auto
termination
proof (relation "measure length")
  show "wf (measure length)" by simp
next
  fix s :: jsstring
  assume "s \<noteq> []" "js_space (hd s)"
  then obtain c cs where "s = c # cs" "js_space c" by (cases s) auto
  then show "(dropWhile js_space s, s) \<in> measure length"
    by (simp add: less_Suc_eq_le length_dropWhile_le)
next
  fix s :: jsstring
  assume "s \<noteq> []" "\<not> js_space (hd s)"
  then obtain c cs where "s = c # cs" "\<not> js_space c" by (cases s) auto
  then show "(dropWhile (\<lambda>c. \<not> js_space c) s, s) \<in> measure length"
    by (simp add: less_Suc_eq_le length_dropWhile_le)
qed

declare words_of.simps [simp del]

text \<open>
  The label made of the content as the specification words it: the first three words joined
  by single spaces, cut after 40 code units with \<open>...\<close> appended when longer; the node id
  when the content has no word.
\<close>

definition stated_content_label :: "NodeRecord \<Rightarrow> jsstring" where
  "stated_content_label node =
     (let ws = words_of (NodeRecord.content node);
          snippet = join_space (take 3 ws)
      in if ws = [] then id_node node
         else if length snippet > 40 then take 40 snippet @ utf16 ''...''
         else snippet)"

text \<open>
  The rule as the specification words it: the first non-empty string the metadata offers,
  else the label made of the content.
\<close>

definition stated_label :: "NodeRecord \<Rightarrow> jsstring" where
  "stated_label node =
     (case find (\<lambda>v. v \<noteq> []) (metadata_strings (metadata node)) of
        Some v \<Rightarrow> v
      | None \<Rightarrow> stated_content_label node)"

text \<open>
  The label made of the content with the cut trimmed: the first three words joined by single
  spaces and, when these are longer than 40 code units, their first 40 code units with the
  white space at the ends of this cut removed, followed by \<open>...\<close>; the node id when the
  content has no word.
\<close>

definition trimmed_content_label :: "NodeRecord \<Rightarrow> jsstring" where
  "trimmed_content_label node =
     (let ws = words_of (NodeRecord.content node);
          snippet = join_space (take 3 ws)
      in if ws = [] then id_node node
         else if length snippet > 40 then trim (take 40 snippet) @ utf16 ''...''
         else snippet)"

text \<open>
  The rule with the blank strings passed over, the chosen string trimmed and the cut of the
  content trimmed: the first string the metadata offers that is not empty once trimmed,
  trimmed; else the label made of the content with the cut trimmed.
\<close>

definition trimmed_label :: "NodeRecord \<Rightarrow> jsstring" where
  "trimmed_label node =
     (case find (\<lambda>v. trim v \<noteq> []) (metadata_strings (metadata node)) of
        Some v \<Rightarrow> trim v
      | None \<Rightarrow> trimmed_content_label node)"

section \<open>Notions used in the statements about fusion\<close>

text \<open>
  An entry of the combined map after a run of graph results for its node: the graph score
  raised over them, the connection count advanced by their number.
\<close>

definition raised :: "CombinedResult \<Rightarrow> GraphResult list \<Rightarrow> CombinedResult" where
  "raised e gs = e\<lparr>CombinedResult.graphScore :=
                     fold max (map GraphResult.graphScore gs) (CombinedResult.graphScore e),
                   connections := connections e + length gs\<rparr>"

text \<open>The keys of the combined map in order, with each entry's node id and vector score.\<close>

definition key_scores :: "combined_map \<Rightarrow> (jsstring \<times> jsstring \<times> real) list" where
  "key_scores c = map (\<lambda>(k, r). (k, CombinedResult.nodeId r, CombinedResult.vectorScore r)) c"

text \<open>The edges of the graph builder's output that leave node \<open>i\<close>.\<close>

definition edges_from :: "NodeRecord list \<Rightarrow> real list list \<Rightarrow> nat \<Rightarrow> EdgeRow list" where
  "edges_from nodes embeddings i =
     filter (\<lambda>e. source_node_id e = id_node (nodes ! i)) (build_edges nodes embeddings)"

text \<open>
  The nodes one run of the ingestion creates for a list of chunks, the first with the id
  number \<open>n\<close> of the database.
\<close>

fun ingested_nodes :: "(nat \<Rightarrow> jsstring) \<Rightarrow> nat \<Rightarrow> jsstring list \<Rightarrow> NodeRecord list" where
  "ingested_nodes gen n [] = []"
| "ingested_nodes gen n (chunk # chunks) =
     \<lparr>id_node = gen n, node_type = utf16 ''text'', NodeRecord.content = chunk,
      embedding = localEmbedding chunk, metadata = Some Map.empty\<rparr>
     # ingested_nodes gen (Suc n) chunks"

section \<open>Example inputs\<close>

text \<open>A database holding one empty upload for a file that is being processed.\<close>

definition db_empty_upload :: Database where
  "db_empty_upload =
     \<lparr>uploads = [utf16 ''empty.txt'' \<mapsto> []],
      files_status = [utf16 ''f1'' \<mapsto> utf16 ''processing''],
      nodes_table = [], edges_table = [],
      generated_ids = (\<lambda>n. replicate (Suc n) 0x61), next_id = 0\<rparr>"

text \<open>Two nodes with the content \<open>graph\<close>, a store that holds them and no edge, and a request for the query \<open>graph\<close>.\<close>

definition node_a :: NodeRecord where
  "node_a = \<lparr>id_node = utf16 ''a'', node_type = utf16 ''text'', NodeRecord.content = utf16 ''graph'',
              embedding = localEmbedding (utf16 ''graph''), metadata = Some Map.empty\<rparr>"

definition node_b :: NodeRecord where
  "node_b = \<lparr>id_node = utf16 ''b'', node_type = utf16 ''text'', NodeRecord.content = utf16 ''graph'',
              embedding = localEmbedding (utf16 ''graph''), metadata = Some Map.empty\<rparr>"

definition store_ab :: Store where
  "store_ab = \<lparr>select_nodes_by_file = (\<lambda>f. Some [node_a, node_b]),
                select_edges_by_source = (\<lambda>ids. Some []),
                select_nodes_by_id = (\<lambda>ids. Some [])\<rparr>"

definition request :: "int \<Rightarrow> real \<Rightarrow> real \<Rightarrow> SearchRequest" where
  "request k vw gw = \<lparr>query = utf16 ''graph'', SearchRequest.fileId = utf16 ''f1'',
                       vectorWeight = vw, graphWeight = gw, topK = k\<rparr>"


text \<open>
  A file of three nodes: \<open>a\<close> with the embedding of \<open>graph\<close>, \<open>c\<close> and \<open>d\<close> with the opposite
  vector, and the six edges the graph builder makes of them (cosine 1 between \<open>c\<close> and
  \<open>d\<close>, cosine -1 between \<open>a\<close> and the other two).
\<close>

definition node_c :: NodeRecord where
  "node_c = \<lparr>id_node = utf16 ''c'', node_type = utf16 ''text'', NodeRecord.content = utf16 ''vector'',
              embedding = map uminus (localEmbedding (utf16 ''graph'')), metadata = Some Map.empty\<rparr>"

definition node_d :: NodeRecord where
  "node_d = \<lparr>id_node = utf16 ''d'', node_type = utf16 ''text'', NodeRecord.content = utf16 ''vector'',
              embedding = map uminus (localEmbedding (utf16 ''graph'')), metadata = Some Map.empty\<rparr>"

definition edge :: "string \<Rightarrow> string \<Rightarrow> real \<Rightarrow> EdgeRecord" where
  "edge s t w = \<lparr>source_node_id = utf16 s, target_node_id = utf16 t, EdgeRecord.weight = w\<rparr>"

definition edges_acd :: "EdgeRecord list" where
  "edges_acd = [edge ''a'' ''c'' (- 1), edge ''a'' ''d'' (- 1),
          edge ''c'' ''d'' 1, edge ''c'' ''a'' (- 1),
          edge ''d'' ''c'' 1, edge ''d'' ''a'' (- 1)]"

definition store_acd :: Store where
  "store_acd =
     \<lparr>select_nodes_by_file = (\<lambda>f. Some [node_a, node_c, node_d]),
      select_edges_by_source = (\<lambda>ids. Some (filter (\<lambda>e. source_node_id e \<in> set ids) edges_acd)),
      select_nodes_by_id = (\<lambda>ids. Some [])\<rparr>"

text \<open>A node whose only metadata is the label \<open>" "\<close> (one space), with the content \<open>x\<close>.\<close>

definition node_blank_label :: NodeRecord where
  "node_blank_label =
     \<lparr>id_node = utf16 ''n1'', node_type = utf16 ''text'', NodeRecord.content = utf16 ''x'',
      embedding = localEmbedding (utf16 ''x''),
      metadata = Some [utf16 ''label'' \<mapsto> JStr (utf16 '' '')]\<rparr>"

text \<open>
  A node without metadata whose first three words take 50 code units when joined, the 40th
  being the space after the second word.
\<close>

definition node_long_words :: NodeRecord where
  "node_long_words =
     \<lparr>id_node = utf16 ''n3'', node_type = utf16 ''text'',
      NodeRecord.content = utf16 ''abcdefghijklmnopqrst ABCDEFGHIJKLMNOPQR 0123456789 tail'',
      embedding = localEmbedding (utf16 ''abcdefghijklmnopqrst ABCDEFGHIJKLMNOPQR 0123456789 tail''),
      metadata = Some Map.empty\<rparr>"

text \<open>A node labelled \<open>Foo\<close> by its metadata, with an unrelated content.\<close>

definition node_foo :: NodeRecord where
  "node_foo =
     \<lparr>id_node = utf16 ''n2'', node_type = utf16 ''text'',
      NodeRecord.content = utf16 ''graphs and vectors'',
      embedding = localEmbedding (utf16 ''graphs and vectors''),
      metadata = Some [utf16 ''label'' \<mapsto> JStr (utf16 ''Foo'')]\<rparr>"

section \<open>Properties of the chunker\<close>

lemma splitIntoChunks_Nil: "splitIntoChunks [] = []"
  by (simp add: splitIntoChunks.simps)

lemma chunk_prefix:
  "takeWhile P (take n xs) @ drop (length (takeWhile P (take n xs))) xs = xs"
proof -
  let ?k = "length (takeWhile P (take n xs))"
  have "?k \<le> length (take n xs)" by (rule length_takeWhile_le)
  then have k: "?k \<le> n" by simp
  have "takeWhile P (take n xs) = take ?k (take n xs)" by (rule takeWhile_eq_take)
  also have "\<dots> = take ?k xs" using k by (simp add: min_absorb1)
  finally have "takeWhile P (take n xs) @ drop ?k xs = take ?k xs @ drop ?k xs" by simp
  then show ?thesis by (simp only: append_take_drop_id)
qed

text \<open>
  What the chunks do cover: the input with every CR, U+2028 and U+2029 removed. The chunks are
  never empty and never longer than 500 code units.
\<close>

lemma splitIntoChunks_concat: "concat (splitIntoChunks t) = filter dot_or_newline t"
proof (induction t rule: splitIntoChunks.induct)
  case (1 t)
  show ?case
  proof (cases "t = []")
    case True
    then show ?thesis by (simp add: splitIntoChunks_Nil)
  next
    case False
    let ?m = "takeWhile dot_or_newline (take 500 t)"
    show ?thesis
    proof (cases "?m = []")
      case True
      obtain c cs where t: "t = c # cs" using False by (cases t) auto
      with True have "\<not> dot_or_newline c" by (auto split: if_splits)
      moreover have "concat (splitIntoChunks t) = concat (splitIntoChunks (tl t))"
        using False True by (subst splitIntoChunks.simps) simp
      ultimately show ?thesis using 1(1) [OF False refl True] t by simp
    next
      case m: False
      have "concat (splitIntoChunks t) = ?m @ concat (splitIntoChunks (drop (length ?m) t))"
        using False m by (subst splitIntoChunks.simps) (simp add: Let_def)
      also have "\<dots> = ?m @ filter dot_or_newline (drop (length ?m) t)"
        using 1(2) [OF False refl m] by simp
      also have "\<dots> = filter dot_or_newline (?m @ drop (length ?m) t)"
      proof -
        have "filter dot_or_newline ?m = ?m"
          by (rule filter_True) (auto dest: set_takeWhileD)
        then show ?thesis by simp
      qed
      finally show ?thesis by (simp only: chunk_prefix)
    qed
  qed
qed

lemma splitIntoChunks_length:
  "c \<in> set (splitIntoChunks t) \<Longrightarrow> 1 \<le> length c \<and> length c \<le> 500"
proof (induction t arbitrary: c rule: splitIntoChunks.induct)
  case (1 t)
  show ?case
  proof (cases "t = []")
    case True
    with 1(3) show ?thesis by (simp add: splitIntoChunks_Nil)
  next
    case False
    let ?m = "takeWhile dot_or_newline (take 500 t)"
    show ?thesis
    proof (cases "?m = []")
      case True
      have "splitIntoChunks t = splitIntoChunks (tl t)"
        using False True by (subst splitIntoChunks.simps) simp
      then have "c \<in> set (splitIntoChunks (tl t))" using 1(3) by (simp only:)
      then show ?thesis by (rule 1(1) [OF False refl True])
    next
      case m: False
      have eq: "splitIntoChunks t = ?m # splitIntoChunks (drop (length ?m) t)"
        using False m by (subst splitIntoChunks.simps) (simp add: Let_def)
      have "length ?m \<le> length (take 500 t)" by (rule length_takeWhile_le)
      then have "length ?m \<le> 500" by simp
      moreover have "1 \<le> length ?m" using m by (simp add: Suc_le_eq)
      moreover have "c = ?m \<or> c \<in> set (splitIntoChunks (drop (length ?m) t))"
        using 1(3) by (simp only: eq set_ConsD set_simps insert_iff)
      ultimately show ?thesis using 1(2) [OF False refl m] by blast
    qed
  qed
qed

text \<open>
  C4. The chunks of a text are claimed to concatenate to the text, with only the last chunk
  shorter than 500. On the text \<open>a CR LF b\<close> the pattern \<open>(.|\n)\<close> does not match the
  carriage return: the chunks are \<open>a\<close> and \<open>LF b\<close>, the first is shorter than 500 without
  being the last, and their concatenation has lost the carriage return.
\<close>

theorem splitIntoChunks_loses_carriage_return:
  "splitIntoChunks (utf16 ''a'' @ [0x0D, 0x0A] @ utf16 ''b'') = [utf16 ''a'', 0x0A # utf16 ''b'']
   \<and> concat (splitIntoChunks (utf16 ''a'' @ [0x0D, 0x0A] @ utf16 ''b''))
       \<noteq> utf16 ''a'' @ [0x0D, 0x0A] @ utf16 ''b''"
  by (simp add: splitIntoChunks.simps dot_or_newline_def utf16_def)

section \<open>Properties of the embedder\<close>

lemma xorshift_bit0: "bit (xorshift x) 0 \<longleftrightarrow> (bit x 0 \<noteq> (bit x 17 \<noteq> bit x 4))"
  by (simp add: xorshift_def Let_def bit_simps)

lemma mod_5000_even: "unat w mod 10000 = 5000 \<Longrightarrow> \<not> bit w 0"
proof -
  assume a: "unat w mod 10000 = 5000"
  have "2 dvd (unat w mod 10000)" using a by simp
  then have "2 dvd (unat w)" by (simp add: dvd_mod_iff)
  then have "\<not> bit (unat w) 0" by (simp add: bit_0)
  then show ?thesis by (simp add: bit_unsigned_iff)
qed

text \<open>
  Dimensions 0 and 1 mix the seed with constants that differ in bit 0 only, and bit 0 of the
  scrambled word is the parity of bits 0, 4 and 17 of its input: one of the two scrambled words
  is odd, so its residue modulo 10000 is not 5000 and its component is not zero.
\<close>

lemma dim_value_0_1: "dim_value seed 0 \<noteq> 0 \<or> dim_value seed 1 \<noteq> 0"
proof -
  let ?a = "xorshift (seed XOR word_of_nat (0 + 0x9e3779b9))"
  let ?b = "xorshift (seed XOR word_of_nat (1 + 0x9e3779b9))"
  have "bit ?a 0 \<noteq> bit ?b 0"
    by (simp add: xorshift_bit0 bit_simps) blast
  then have "unat ?a mod 10000 \<noteq> 5000 \<or> unat ?b mod 10000 \<noteq> 5000"
    using mod_5000_even by blast
  then show ?thesis
    by (auto simp: dim_value_def Let_def)
qed

lemma sum_squares_fold: "fold (\<lambda>v norm. norm + v * v) vec a = a + (\<Sum>x\<leftarrow>vec. x * x)"
  by (induction vec arbitrary: a) (simp_all add: add.assoc)

lemma sum_squares_eq: "sum_squares vec = (\<Sum>x\<leftarrow>vec. x * x)"
  by (simp add: sum_squares_def sum_squares_fold)

lemma sum_squares_nonneg: "0 \<le> (\<Sum>x\<leftarrow>vec. x * (x::real))"
  by (induction vec) simp_all

lemma sum_squares_pos: "x \<in> set vec \<Longrightarrow> x \<noteq> 0 \<Longrightarrow> 0 < (\<Sum>x\<leftarrow>vec. x * (x::real))"
proof (induction vec)
  case Nil then show ?case by simp
next
  case (Cons a vec)
  have "0 \<le> a * a" by simp
  show ?case
  proof (cases "x = a")
    case True
    then have "0 < a * a" using Cons.prems by (simp add: zero_less_mult_iff less_le)
    then show ?thesis using sum_squares_nonneg [of vec] by simp
  next
    case False
    then have "0 < (\<Sum>x\<leftarrow>vec. x * x)" using Cons by simp
    then show ?thesis using \<open>0 \<le> a * a\<close> by (simp add: add_nonneg_pos)
  qed
qed

lemma sum_squares_scaled:
  "(\<Sum>x\<leftarrow>map (\<lambda>v. v / n) vec. x * x) = (\<Sum>x\<leftarrow>vec. x * x) / (n * n :: real)"
  by (induction vec) (simp_all add: add_divide_distrib)

lemma l2_normalize_pos:
  assumes "0 < (\<Sum>x\<leftarrow>vec. x * x)"
  shows "l2_normalize vec = map (\<lambda>v. v / sqrt (\<Sum>x\<leftarrow>vec. x * x)) vec"
proof -
  have "sqrt (\<Sum>x\<leftarrow>vec. x * x) \<noteq> 0" using assms by simp
  then show ?thesis by (simp add: l2_normalize_def sum_squares_eq Let_def)
qed

lemma l2_norm_normalize:
  assumes "0 < (\<Sum>x\<leftarrow>vec. x * x)"
  shows "l2_norm (l2_normalize vec) = 1"
proof -
  let ?q = "\<Sum>x\<leftarrow>vec. x * x"
  have "l2_norm (l2_normalize vec) = sqrt (?q / (sqrt ?q * sqrt ?q))"
    unfolding l2_norm_def l2_normalize_pos [OF assms] by (simp only: sum_squares_scaled)
  moreover have "sqrt ?q * sqrt ?q = ?q" using assms by simp
  ultimately show ?thesis
    using assms by simp
qed

lemma l2_normalize_zero:
  assumes "sqrt (sum_squares vec) = 0"
  shows "l2_normalize vec = map (\<lambda>v. v / 1) vec \<and> (\<forall>x\<in>set (l2_normalize vec). x = 0)"
proof -
  have z: "(\<Sum>x\<leftarrow>vec. x * x) = 0" using assms by (simp add: sum_squares_eq)
  have "x = 0" if "x \<in> set vec" for x
    using sum_squares_pos [OF that] z by fastforce
  then show ?thesis using assms by (simp add: l2_normalize_def Let_def)
qed

lemma localEmbedding_sum_pos: "0 < (\<Sum>x\<leftarrow>map (dim_value (fnv_seed t)) [0..<768]. x * x)"
proof -
  have "dim_value (fnv_seed t) 0 \<in> set (map (dim_value (fnv_seed t)) [0..<768])"
       "dim_value (fnv_seed t) 1 \<in> set (map (dim_value (fnv_seed t)) [0..<768])"
    by simp_all
  then show ?thesis
    using dim_value_0_1 [of "fnv_seed t"] sum_squares_pos by blast
qed

lemma localEmbedding_length: "length (localEmbedding t) = 768"
  by (simp add: localEmbedding_def Let_def l2_normalize_def)

lemma localEmbedding_norm: "l2_norm (localEmbedding t) = 1"
  using l2_norm_normalize [OF localEmbedding_sum_pos [of t]]
  by (simp add: localEmbedding_def Let_def)

lemma localEmbedding_query_eq: "localEmbedding_query t = localEmbedding t"
  unfolding localEmbedding_query_def localEmbedding_def Let_def l2_normalize_def
      sum_squares_def fnv_seed_def dim_value_def xorshift_def foldl_conv_fold
  by (rule refl)

text \<open>
  C5. The embedding function of the query handler and the one of the ingestion handler
  return the same vector of 768 components for every text.
\<close>

theorem localEmbedding_query_ingest_equal:
  "localEmbedding_query t = localEmbedding t
   \<and> length (localEmbedding_query t) = 768 \<and> length (localEmbedding t) = 768"
proof -
  have "localEmbedding_query t = localEmbedding t"
    unfolding localEmbedding_query_def localEmbedding_def Let_def l2_normalize_def
      sum_squares_def fnv_seed_def dim_value_def xorshift_def foldl_conv_fold
    by (rule refl)
  then show ?thesis by (simp add: localEmbedding_length)
qed

text \<open>
  C6. For every text, empty or not, the embedding has 768 components and Euclidean norm 1,
  hence within \<open>1e-6\<close> of 1. Where the root of the sum of squares is zero the normalisation
  divides by 1 and the vector stays all-zero.
\<close>

theorem localEmbedding_unit_norm:
  "length (localEmbedding t) = 768 \<and> l2_norm (localEmbedding t) = 1
   \<and> \<bar>l2_norm (localEmbedding t) - 1\<bar> \<le> 1 / 10 ^ 6
   \<and> (sqrt (sum_squares vec) = 0 \<longrightarrow>
        l2_normalize vec = map (\<lambda>v. v / 1) vec \<and> (\<forall>x\<in>set (l2_normalize vec). x = 0))"
  using l2_normalize_zero [of vec]
  by (simp add: localEmbedding_length localEmbedding_norm)

theorem localEmbedding_unit_norm_witness:
  "length (localEmbedding (utf16 ''graph'')) = 768 \<and> l2_norm (localEmbedding (utf16 ''graph'')) = 1
   \<and> sqrt (sum_squares [0, 0, 0]) = 0 \<and> l2_normalize [0, 0, 0] = [0, 0, 0]"
  using localEmbedding_unit_norm [of "utf16 ''graph''" "[0, 0, 0]"]
  by (simp add: sum_squares_def)

section \<open>Sorting and slicing\<close>

lemma insert_sorted_insort:
  "insert_sorted (\<lambda>a b. key b - key a) x ys = insort_key (\<lambda>x. - key x) x ys"
  by (induction ys) simp_all

lemma js_sort_sort_key: "js_sort (\<lambda>a b. key b - key a) xs = sort_key (\<lambda>x. - key x) xs"
  by (induction xs) (simp_all add: js_sort_def insert_sorted_insort)

lemma js_sort_sorted: "sorted_wrt (\<lambda>a b. key b \<le> key a) (js_sort (\<lambda>a b. key b - key a) xs)"
proof -
  have "sorted (map (\<lambda>x. - key x) (sort_key (\<lambda>x. - key x) xs))" by (rule sorted_sort_key)
  then show ?thesis by (simp add: js_sort_sort_key sorted_map)
qed

lemma js_sort_stable:
  "filter (\<lambda>x. key x = s) (js_sort (\<lambda>a b. key b - key a) xs) = filter (\<lambda>x. key x = s) xs"
  using sort_key_stable [of "\<lambda>x. - key x" "- s" xs] by (simp add: js_sort_sort_key)

lemma js_sort_length: "length (js_sort (\<lambda>a b. key b - key a) xs) = length xs"
  by (simp add: js_sort_sort_key)

lemma js_sort_set: "set (js_sort (\<lambda>a b. key b - key a) xs) = set xs"
  by (simp add: js_sort_sort_key)

lemma take_drop_ordered:
  assumes "sorted_wrt P xs" and "a \<in> set (take m xs)" and "b \<in> set (drop m xs)"
  shows "P a b"
proof -
  have "sorted_wrt P (take m xs @ drop m xs)" using assms(1) by simp
  then show ?thesis using assms(2,3) unfolding sorted_wrt_append by blast
qed

lemma js_slice_take: "\<exists>m. js_slice xs k = take m xs"
  by (auto simp: js_slice_def)

lemma js_slice_nonneg: "0 \<le> k \<Longrightarrow> js_slice xs k = take (nat k) xs"
  by (simp add: js_slice_def)

lemma js_slice_length: "0 \<le> k \<Longrightarrow> int (length (js_slice xs k)) \<le> k"
  by (simp add: js_slice_def)

lemma js_slice_set: "set (js_slice xs k) \<subseteq> set xs"
  by (auto simp: js_slice_def dest: in_set_takeD)

lemma filter_take_prefix: "prefix (filter P (take m xs)) (filter P xs)"
proof -
  have "filter P xs = filter P (take m xs) @ filter P (drop m xs)"
    by (metis append_take_drop_id filter_append)
  then show ?thesis by (simp add: prefix_def)
qed


section \<open>Properties of the cosine\<close>

lemma cosine_fold:
  "fold (\<lambda>i (dot, na, nb). (dot + a ! i * b ! i, na + a ! i * a ! i, nb + b ! i * b ! i))
     [0..<n] (d, x, y)
   = (d + (\<Sum>i<n. a ! i * b ! i), x + (\<Sum>i<n. a ! i * a ! i), y + (\<Sum>i<n. b ! i * b ! (i::nat)))"
  by (induction n) (simp_all add: add.assoc)

lemma cosine_sums:
  "cosine a b = (\<Sum>i<length a. a ! i * b ! i)
     / (sqrt (\<Sum>i<length a. a ! i * a ! i) * sqrt (\<Sum>i<length a. b ! i * b ! i))"
  by (simp add: cosine_def cosine_fold)

lemma sum_nth_squares: "(\<Sum>i<length v. v ! i * v ! i) = (\<Sum>x\<leftarrow>v. x * (x::real))"
proof -
  have "(\<Sum>x\<leftarrow>v. x * x) = (\<Sum>i<length v. map (\<lambda>x. x * x) v ! i)"
    by (simp add: sum_list_sum_nth atLeast0LessThan)
  then show ?thesis by simp
qed

lemma cosine_self:
  assumes "sum_squares v \<noteq> 0"
  shows "cosine v v = 1"
proof -
  let ?q = "\<Sum>x\<leftarrow>v. x * x"
  have "0 < ?q" using assms sum_squares_nonneg [of v] by (simp add: sum_squares_eq less_le)
  then have "sqrt ?q * sqrt ?q = ?q" "?q \<noteq> 0" by simp_all
  then show ?thesis by (simp add: cosine_sums sum_nth_squares)
qed

lemma cosine_opposite:
  assumes "sum_squares v \<noteq> 0"
  shows "cosine v (map uminus v) = - 1"
proof -
  let ?q = "\<Sum>x\<leftarrow>v. x * x"
  have "0 < ?q" using assms sum_squares_nonneg [of v] by (simp add: sum_squares_eq less_le)
  then have q: "sqrt ?q * sqrt ?q = ?q" "?q \<noteq> 0" by simp_all
  have "(\<Sum>i<length v. v ! i * map uminus v ! i) = - ?q"
    by (simp add: sum_negf sum_nth_squares)
  moreover have "(\<Sum>i<length v. map uminus v ! i * map uminus v ! i) = ?q"
    by (simp add: sum_nth_squares)
  ultimately show ?thesis using q by (simp add: cosine_sums sum_nth_squares)
qed

lemma localEmbedding_sum_squares: "sum_squares (localEmbedding t) = 1"
proof -
  have "sqrt (sum_squares (localEmbedding t)) = 1"
    using localEmbedding_norm [of t] by (simp add: l2_norm_def sum_squares_eq)
  then show ?thesis by simp
qed

lemma cosine_defined_embeddings:
  "cosine_defined (localEmbedding_query s) (localEmbedding t)"
  by (simp add: cosine_defined_def localEmbedding_query_eq localEmbedding_length
      localEmbedding_sum_squares)

lemma cosine_defined_opposite:
  "cosine_defined (localEmbedding_query s) (map uminus (localEmbedding s))"
proof -
  have "sum_squares (map uminus (localEmbedding s)) = sum_squares (localEmbedding s)"
    by (simp add: sum_squares_eq comp_def)
  then show ?thesis
    by (simp add: cosine_defined_def localEmbedding_query_eq localEmbedding_length
      localEmbedding_sum_squares)
qed


lemma cosine_query_same: "cosine (localEmbedding_query t) (localEmbedding t) = 1"
  by (simp add: localEmbedding_query_eq cosine_self localEmbedding_sum_squares)

lemma cosine_query_opposite: "cosine (localEmbedding_query t) (map uminus (localEmbedding t)) = - 1"
  by (simp add: localEmbedding_query_eq cosine_opposite localEmbedding_sum_squares)


section \<open>Vector ranking\<close>

lemma hybrid_search_Inr:
  assumes "select_nodes_by_file store (SearchRequest.fileId req) = Some typedNodes"
    and "typedNodes \<noteq> []"
  shows "hybrid_search store req
     = Inr (search_response store req (localEmbedding_query (query req)) typedNodes)"
  using assms by (simp add: hybrid_search_def)

lemma search_response_vectorResults:
  "vectorResults (search_response store req q typedNodes) = vector_search q typedNodes (topK req)"
  by (simp add: search_response_def Let_def)

lemma search_response_graphResults:
  "graphResults (search_response store req q typedNodes)
     = map (graph_result (node_lookup store typedNodes
              (fetch_edges store (vector_search q typedNodes (topK req)))))
         (fetch_edges store (vector_search q typedNodes (topK req)))"
  by (simp add: search_response_def Let_def)

lemma search_response_hybridResults:
  "hybridResults (search_response store req q typedNodes)
     = hybrid_rank (vectorWeight req) (graphWeight req) (topK req)
         (merge_results
            (node_lookup store typedNodes
               (fetch_edges store (vector_search q typedNodes (topK req))))
            (vectorResults (search_response store req q typedNodes))
            (graphResults (search_response store req q typedNodes)))"
  by (simp add: search_response_def Let_def)

lemma hybrid_search_vectorResults:
  assumes "select_nodes_by_file store (SearchRequest.fileId req) = Some typedNodes"
    and "typedNodes \<noteq> []"
  shows "\<exists>resp. hybrid_search store req = Inr resp
     \<and> vectorResults resp = vector_search (localEmbedding_query (query req)) typedNodes (topK req)"
  by (simp add: hybrid_search_Inr [OF assms] search_response_vectorResults)

lemma vector_search_sorted:
  "sorted_wrt (\<lambda>a b. VectorResult.vectorScore b \<le> VectorResult.vectorScore a)
     (vector_search q typedNodes k)"
proof -
  obtain m where "vector_search q typedNodes k
      = take m (js_sort (\<lambda>a b. VectorResult.vectorScore b - VectorResult.vectorScore a)
          (map (scored q) typedNodes))"
    unfolding vector_search_def using js_slice_take by blast
  then show ?thesis by (simp add: sorted_wrt_take js_sort_sorted)
qed

lemma vector_search_stable:
  "prefix (map VectorResult.nodeId
             (filter (\<lambda>r. VectorResult.vectorScore r = s) (vector_search q typedNodes k)))
          (map id_node (filter (\<lambda>node. cosine q (embedding node) = s) typedNodes))"
proof -
  let ?mk = "scored q"
  let ?P = "\<lambda>r. VectorResult.vectorScore r = s"
  obtain m where m: "vector_search q typedNodes k
      = take m (js_sort (\<lambda>a b. VectorResult.vectorScore b - VectorResult.vectorScore a)
          (map ?mk typedNodes))"
    unfolding vector_search_def using js_slice_take by blast
  have "prefix (filter ?P (vector_search q typedNodes k))
          (filter ?P (js_sort (\<lambda>a b. VectorResult.vectorScore b - VectorResult.vectorScore a)
          (map ?mk typedNodes)))"
    unfolding m by (rule filter_take_prefix)
  then have "prefix (filter ?P (vector_search q typedNodes k)) (filter ?P (map ?mk typedNodes))"
    by (simp only: js_sort_stable)
  then have "prefix (map VectorResult.nodeId (filter ?P (vector_search q typedNodes k)))
     (map VectorResult.nodeId (filter ?P (map ?mk typedNodes)))"
    by (rule map_mono_prefix)
  moreover have "map VectorResult.nodeId (filter ?P (map ?mk typedNodes))
     = map id_node (filter (\<lambda>node. cosine q (embedding node) = s) typedNodes)"
    by (simp add: filter_map comp_def scored_def)
  ultimately show ?thesis by simp
qed

lemma vector_search_length:
  "0 \<le> k \<Longrightarrow> int (length (vector_search q typedNodes k)) \<le> k"
  unfolding vector_search_def by (rule js_slice_length)

text \<open>
  C7, as amended. Over a file scope with nodes the search returns, and its vector results
  are in non-increasing order of score, nodes of equal score keep the order of the node list
  (the results of one score are the first of the nodes of that score, in their order), and
  for a non-negative \<open>topK\<close> there are at most \<open>topK\<close> of them.
\<close>

theorem vector_results_ranked:
  assumes "select_nodes_by_file store (SearchRequest.fileId req) = Some typedNodes"
    and "typedNodes \<noteq> []"
    and "\<forall>node\<in>set typedNodes. cosine_defined (localEmbedding_query (query req)) (embedding node)"
  shows "\<exists>resp. hybrid_search store req = Inr resp
     \<and> sorted_wrt (\<lambda>a b. VectorResult.vectorScore b \<le> VectorResult.vectorScore a)
          (vectorResults resp)
     \<and> (\<forall>s. prefix
           (map VectorResult.nodeId
              (filter (\<lambda>r. VectorResult.vectorScore r = s) (vectorResults resp)))
           (map id_node
              (filter (\<lambda>node. cosine (localEmbedding_query (query req)) (embedding node) = s)
                 typedNodes)))
     \<and> (0 \<le> topK req \<longrightarrow> int (length (vectorResults resp)) \<le> topK req)"
proof -
  obtain resp where r: "hybrid_search store req = Inr resp"
    "vectorResults resp = vector_search (localEmbedding_query (query req)) typedNodes (topK req)"
    using hybrid_search_vectorResults [OF assms(1,2)] by blast
  show ?thesis
    using r vector_search_sorted vector_search_stable vector_search_length by auto
qed

text \<open>
  With \<open>topK = -1\<close> the slice drops the last entry: of two nodes one is returned, which is
  more than \<open>topK\<close>.
\<close>

theorem vector_results_negative_topK:
  "(case hybrid_search store_ab (request (- 1) (1 / 2) (1 / 2)) of
      Inl e \<Rightarrow> False
    | Inr resp \<Rightarrow> map VectorResult.nodeId (vectorResults resp) = [utf16 ''a'']
        \<and> \<not> int (length (vectorResults resp)) \<le> topK (request (- 1) (1 / 2) (1 / 2)))"
proof -
  obtain resp where r: "hybrid_search store_ab (request (- 1) (1 / 2) (1 / 2)) = Inr resp"
    "vectorResults resp = vector_search (localEmbedding_query (query (request (- 1) (1 / 2) (1 / 2))))
        [node_a, node_b] (topK (request (- 1) (1 / 2) (1 / 2)))"
    using hybrid_search_vectorResults [of store_ab "request (- 1) (1 / 2) (1 / 2)" "[node_a, node_b]"]
    by (auto simp: store_ab_def)
  have "vectorResults resp = [scored (localEmbedding_query (utf16 ''graph'')) node_a]"
    unfolding r(2)
    by (simp add: vector_search_def js_sort_def js_slice_def request_def node_a_def node_b_def
        cosine_query_same scored_def)
  then show ?thesis using r(1) by (simp add: scored_def node_a_def request_def)
qed

section \<open>Fusion\<close>

lemma map_of_add_vector_result:
  "map_of (add_vector_result v c) k
     = (if VectorResult.nodeId v = k then Some (vector_entry v) else map_of c k)"
  by (simp add: add_vector_result_def update_conv')

lemma map_of_add_vectors_notin:
  "k \<notin> VectorResult.nodeId ` set vs \<Longrightarrow> map_of (fold add_vector_result vs c) k = map_of c k"
  by (induction vs arbitrary: c) (auto simp: map_of_add_vector_result)

lemma map_of_add_vectors_in:
  "k \<in> VectorResult.nodeId ` set vs \<Longrightarrow>
     \<exists>v\<in>set vs. VectorResult.nodeId v = k \<and> map_of (fold add_vector_result vs c) k = Some (vector_entry v)"
proof (induction vs arbitrary: c)
  case Nil then show ?case by simp
next
  case (Cons v vs)
  show ?case
  proof (cases "k \<in> VectorResult.nodeId ` set vs")
    case True
    then show ?thesis using Cons.IH [of "add_vector_result v c"] by auto
  next
    case False
    then have "VectorResult.nodeId v = k" using Cons.prems by auto
    then show ?thesis using False
      by (auto simp: map_of_add_vectors_notin map_of_add_vector_result)
  qed
qed

lemma raised_Nil: "raised e [] = e"
  by (simp add: raised_def)

lemma raised_Cons:
  "raised (e\<lparr>CombinedResult.graphScore := max (CombinedResult.graphScore e) (GraphResult.graphScore g),
            connections := connections e + 1\<rparr>) gs = raised e (g # gs)"
  by (simp add: raised_def max.commute)

lemma map_of_merge_graph_result:
  "map_of (merge_graph_result L g c) k
     = (if GraphResult.nodeId g = k
        then (case map_of c k of
                Some e \<Rightarrow> Some (raised e [g])
              | None \<Rightarrow> Some (graph_entry L g))
        else map_of c k)"
  by (auto simp: merge_graph_result_def update_conv' raised_def max.commute
      split: option.splits)

lemma map_of_merge_graphs:
  "map_of (fold (merge_graph_result L) gs c) k
     = (case map_of c k of
          Some e \<Rightarrow> Some (raised e (filter (\<lambda>g. GraphResult.nodeId g = k) gs))
        | None \<Rightarrow>
           (case filter (\<lambda>g. GraphResult.nodeId g = k) gs of
              [] \<Rightarrow> None
            | g # rest \<Rightarrow> Some (raised (graph_entry L g) rest)))"
proof (induction gs arbitrary: c)
  case Nil
  then show ?case by (simp add: raised_Nil split: option.splits)
next
  case (Cons g gs)
  show ?case
  proof (cases "GraphResult.nodeId g = k")
    case False
    then show ?thesis by (simp add: Cons.IH map_of_merge_graph_result split: option.splits)
  next
    case True
    show ?thesis
    proof (cases "map_of c k")
      case None
      then show ?thesis using True by (simp add: Cons.IH map_of_merge_graph_result)
    next
      case (Some e)
      have "raised (raised e [g]) (filter (\<lambda>g. GraphResult.nodeId g = k) gs)
          = raised e (g # filter (\<lambda>g. GraphResult.nodeId g = k) gs)"
        by (simp add: raised_def max.commute)
      then show ?thesis using True Some by (simp add: Cons.IH map_of_merge_graph_result)
    qed
  qed
qed

lemma fold_max_Max: "fold max xs (a::real) = Max (insert a (set xs))"
  using Max.set_eq_fold [of a xs] by simp

lemma distinct_add_vectors:
  "distinct (map fst c) \<Longrightarrow> distinct (map fst (fold add_vector_result vs c))"
  by (induction vs arbitrary: c) (simp_all add: add_vector_result_def distinct_update)

lemma distinct_merge_graphs:
  "distinct (map fst c) \<Longrightarrow> distinct (map fst (fold (merge_graph_result L) gs c))"
  by (induction gs arbitrary: c)
     (simp_all add: merge_graph_result_def distinct_update split: option.splits)

lemma distinct_merge_results: "distinct (map fst (merge_results L vs gs))"
  by (simp add: merge_results_def distinct_merge_graphs distinct_add_vectors)

lemma raised_fields:
  "CombinedResult.nodeId (raised e gs) = CombinedResult.nodeId e"
  "CombinedResult.vectorScore (raised e gs) = CombinedResult.vectorScore e"
  "connections (raised e gs) = connections e + length gs"
  "CombinedResult.graphScore (raised e gs)
     = Max (insert (CombinedResult.graphScore e) (set (map GraphResult.graphScore gs)))"
  by (simp_all add: raised_def fold_max_Max)

lemma merge_results_entry:
  assumes "(key, r) \<in> set (merge_results L vs gs)"
  defines "gk \<equiv> filter (\<lambda>g. GraphResult.nodeId g = key) gs"
  shows "CombinedResult.nodeId r = key \<and> connections r = length gk
    \<and> (key \<in> VectorResult.nodeId ` set vs \<longrightarrow>
          CombinedResult.graphScore r = Max (insert 0 (set (map GraphResult.graphScore gk)))
          \<and> (\<exists>v\<in>set vs. VectorResult.nodeId v = key
                \<and> CombinedResult.vectorScore r = VectorResult.vectorScore v))
    \<and> (key \<notin> VectorResult.nodeId ` set vs \<longrightarrow>
          gk \<noteq> [] \<and> CombinedResult.vectorScore r = 0
          \<and> CombinedResult.graphScore r = Max (set (map GraphResult.graphScore gk)))"
proof -
  let ?c0 = "fold add_vector_result vs []"
  have m: "map_of (merge_results L vs gs) key = Some r"
    using assms(1) distinct_merge_results by (simp add: map_of_eq_Some_iff)
  have eq: "(case map_of ?c0 key of
          Some e \<Rightarrow> Some (raised e gk)
        | None \<Rightarrow> (case gk of [] \<Rightarrow> None | g # rest \<Rightarrow> Some (raised (graph_entry L g) rest)))
       = Some r"
    using m unfolding merge_results_def map_of_merge_graphs gk_def .
  show ?thesis
  proof (cases "key \<in> VectorResult.nodeId ` set vs")
    case True
    then obtain v where v: "v \<in> set vs" "VectorResult.nodeId v = key"
        "map_of ?c0 key = Some (vector_entry v)"
      using map_of_add_vectors_in [of key vs "[]"] by blast
    then have "r = raised (vector_entry v) gk" using eq by simp
    then show ?thesis using True v(1,2)
      by (auto simp: raised_fields vector_entry_def)
  next
    case False
    then have n: "map_of ?c0 key = None"
      by (simp add: map_of_add_vectors_notin)
    then obtain g rest where g: "gk = g # rest" "r = raised (graph_entry L g) rest"
      using eq by (cases gk) auto
    have "g \<in> set gk" using g(1) by simp
    then have "GraphResult.nodeId g = key" unfolding gk_def by simp
    then show ?thesis using False g
      by (simp add: raised_fields graph_entry_def)
  qed
qed

lemma hybrid_rank_member:
  assumes "h \<in> set (hybrid_rank vw gw k c)"
  shows "\<exists>key r. (key, r) \<in> set c \<and> h = with_hybrid_score vw gw r"
proof -
  let ?xs = "map (with_hybrid_score vw gw) (map snd c)"
  let ?sorted = "js_sort (\<lambda>a b. hybridScore b - hybridScore a) ?xs"
  have "h \<in> set (js_slice ?sorted k)"
    using assms by (simp only: hybrid_rank_def)
  with js_slice_set [of ?sorted k] have "h \<in> set ?sorted"
    by (rule subsetD)
  then have "h \<in> set ?xs"
    by (simp only: js_sort_set)
  then obtain e where e: "e \<in> set c" "h = with_hybrid_score vw gw (snd e)"
    by (auto simp: image_iff)
  obtain key r where "e = (key, r)" by (cases e)
  with e show ?thesis by auto
qed

lemma with_hybrid_score_fields:
  "CombinedResult.nodeId (with_hybrid_score vw gw r) = CombinedResult.nodeId r"
  "CombinedResult.vectorScore (with_hybrid_score vw gw r) = CombinedResult.vectorScore r"
  "CombinedResult.graphScore (with_hybrid_score vw gw r) = CombinedResult.graphScore r"
  "connections (with_hybrid_score vw gw r) = connections r"
  "hybridScore (with_hybrid_score vw gw r)
     = CombinedResult.vectorScore r * vw + CombinedResult.graphScore r * gw"
  by (simp_all add: with_hybrid_score_def)

lemma hybrid_search_results:
  assumes "select_nodes_by_file store (SearchRequest.fileId req) = Some typedNodes"
    and "typedNodes \<noteq> []"
  shows "\<exists>resp L. hybrid_search store req = Inr resp
     \<and> vectorResults resp = vector_search (localEmbedding_query (query req)) typedNodes (topK req)
     \<and> hybridResults resp = hybrid_rank (vectorWeight req) (graphWeight req) (topK req)
          (merge_results L (vectorResults resp) (graphResults resp))"
  using search_response_hybridResults search_response_vectorResults
  unfolding hybrid_search_Inr [OF assms] by blast

text \<open>
  The scores the fusion gives. Every hybrid result has \<open>hybridScore = vectorScore *
  vectorWeight + graphScore * graphWeight\<close> and as many connections as there are graph
  results for its node. The two branches of the merge differ: for a node that is not among
  the vector results the vector score is 0 and the graph score is the greatest weight of its
  graph results, negative when all of them are; for a node among the vector results the
  maximum is taken with the initial 0 as well, so the graph score is the greatest of 0 and
  the weights of its graph results.
\<close>

lemma fusion_scores:
  assumes "select_nodes_by_file store (SearchRequest.fileId req) = Some typedNodes"
    and "typedNodes \<noteq> []"
    and "\<forall>node\<in>set typedNodes. cosine_defined (localEmbedding_query (query req)) (embedding node)"
  shows "\<exists>resp. hybrid_search store req = Inr resp
     \<and> (\<forall>h\<in>set (hybridResults resp).
          hybridScore h = CombinedResult.vectorScore h * vectorWeight req
                          + CombinedResult.graphScore h * graphWeight req
        \<and> connections h
            = length (filter (\<lambda>g. GraphResult.nodeId g = CombinedResult.nodeId h) (graphResults resp))
        \<and> (CombinedResult.nodeId h \<in> VectorResult.nodeId ` set (vectorResults resp) \<longrightarrow>
             CombinedResult.graphScore h
               = Max (insert 0 (GraphResult.graphScore `
                     {g \<in> set (graphResults resp). GraphResult.nodeId g = CombinedResult.nodeId h})))
        \<and> (CombinedResult.nodeId h \<in> VectorResult.nodeId ` set (vectorResults resp)
             \<and> CombinedResult.nodeId h \<notin> GraphResult.nodeId ` set (graphResults resp) \<longrightarrow>
             CombinedResult.graphScore h = 0)
        \<and> (CombinedResult.nodeId h \<notin> VectorResult.nodeId ` set (vectorResults resp) \<longrightarrow>
             CombinedResult.nodeId h \<in> GraphResult.nodeId ` set (graphResults resp)
             \<and> CombinedResult.vectorScore h = 0
             \<and> CombinedResult.graphScore h
               = Max (GraphResult.graphScore `
                     {g \<in> set (graphResults resp). GraphResult.nodeId g = CombinedResult.nodeId h})))"
proof -
  obtain resp L where r: "hybrid_search store req = Inr resp"
    "hybridResults resp = hybrid_rank (vectorWeight req) (graphWeight req) (topK req)
          (merge_results L (vectorResults resp) (graphResults resp))"
    using hybrid_search_results [OF assms(1,2)] by blast
  show ?thesis
  proof (intro exI conjI ballI, rule r(1))
    fix h assume "h \<in> set (hybridResults resp)"
    then obtain key e where e: "(key, e) \<in> set (merge_results L (vectorResults resp) (graphResults resp))"
      "h = with_hybrid_score (vectorWeight req) (graphWeight req) e"
      using hybrid_rank_member unfolding r(2) by blast
    note p = merge_results_entry [OF e(1)]
    have k: "CombinedResult.nodeId h = key" using p e(2) by (simp add: with_hybrid_score_fields)
    have s: "set (filter (\<lambda>g. GraphResult.nodeId g = key) (graphResults resp))
       = {g \<in> set (graphResults resp). GraphResult.nodeId g = key}" by auto
    have ne: "filter (\<lambda>g. GraphResult.nodeId g = key) (graphResults resp) \<noteq> []
       \<longleftrightarrow> key \<in> GraphResult.nodeId ` set (graphResults resp)"
      by (auto simp: filter_empty_conv)
    show "hybridScore h = CombinedResult.vectorScore h * vectorWeight req
                          + CombinedResult.graphScore h * graphWeight req"
      using e(2) by (simp add: with_hybrid_score_fields)
    show "connections h
            = length (filter (\<lambda>g. GraphResult.nodeId g = CombinedResult.nodeId h) (graphResults resp))"
      using p e(2) k by (simp add: with_hybrid_score_fields)
    show "CombinedResult.nodeId h \<in> VectorResult.nodeId ` set (vectorResults resp) \<longrightarrow>
             CombinedResult.graphScore h
               = Max (insert 0 (GraphResult.graphScore `
                     {g \<in> set (graphResults resp). GraphResult.nodeId g = CombinedResult.nodeId h}))"
      using p e(2) unfolding k by (simp add: with_hybrid_score_fields s)
    show "CombinedResult.nodeId h \<in> VectorResult.nodeId ` set (vectorResults resp)
             \<and> CombinedResult.nodeId h \<notin> GraphResult.nodeId ` set (graphResults resp) \<longrightarrow>
             CombinedResult.graphScore h = 0"
    proof
      assume a: "CombinedResult.nodeId h \<in> VectorResult.nodeId ` set (vectorResults resp)
             \<and> CombinedResult.nodeId h \<notin> GraphResult.nodeId ` set (graphResults resp)"
      then have "filter (\<lambda>g. GraphResult.nodeId g = key) (graphResults resp) = []"
        using ne k by blast
      then show "CombinedResult.graphScore h = 0"
        using p a e(2) unfolding k by (simp add: with_hybrid_score_fields)
    qed
    show "CombinedResult.nodeId h \<notin> VectorResult.nodeId ` set (vectorResults resp) \<longrightarrow>
             CombinedResult.nodeId h \<in> GraphResult.nodeId ` set (graphResults resp)
             \<and> CombinedResult.vectorScore h = 0
             \<and> CombinedResult.graphScore h
               = Max (GraphResult.graphScore `
                     {g \<in> set (graphResults resp). GraphResult.nodeId g = CombinedResult.nodeId h})"
      using p e(2) ne unfolding k by (simp add: with_hybrid_score_fields s)
  qed
qed

lemma of_char_word_inject: "(of_nat (of_char c) :: 16 word) = of_nat (of_char d) \<longleftrightarrow> c = d"
proof -
  have lt: "of_char x < (2::nat) ^ 16" for x :: char
  proof -
    have a: "of_char x < (256::nat)" by simp
    have "(256::nat) < 2 ^ 16" by simp
    with a show ?thesis by (rule less_trans)
  qed
  have "take_bit 16 (of_char x :: nat) = of_char x" for x :: char
    using lt [of x] by (simp only: take_bit_nat_eq_self_iff)
  then have "(of_nat (of_char c) :: 16 word) = of_nat (of_char d)
      \<longleftrightarrow> (of_char c :: nat) = of_char d"
    by (simp add: word_of_nat_eq_iff)
  then show ?thesis by simp
qed

lemma utf16_inject [simp]: "utf16 s = utf16 t \<longleftrightarrow> s = t"
proof (induction s arbitrary: t)
  case Nil then show ?case by (auto simp: utf16_def)
next
  case (Cons c s)
  show ?case
  proof (cases t)
    case Nil then show ?thesis by (simp add: utf16_def)
  next
    case (Cons d t')
    then show ?thesis using Cons.IH [of t'] by (simp add: utf16_def of_char_word_inject)
  qed
qed

lemma graph_result_fields:
  "GraphResult.nodeId (graph_result L e) = target_node_id e"
  "sourceNode (graph_result L e) = source_node_id e"
  "GraphResult.graphScore (graph_result L e) = EdgeRecord.weight e"
  by (simp_all add: graph_result_def Let_def)

lemma scored_fields:
  "VectorResult.nodeId (scored q n) = id_node n"
  "VectorResult.vectorScore (scored q n) = cosine q (embedding n)"
  by (simp_all add: scored_def)

lemma example_scores:
  "cosine (localEmbedding_query (utf16 ''graph'')) (embedding node_a) = 1"
  "cosine (localEmbedding_query (utf16 ''graph'')) (embedding node_b) = 1"
  "cosine (localEmbedding_query (utf16 ''graph'')) (embedding node_c) = - 1"
  "cosine (localEmbedding_query (utf16 ''graph'')) (embedding node_d) = - 1"
  by (simp_all add: node_a_def node_b_def node_c_def node_d_def cosine_query_same cosine_query_opposite)

lemma example_ids:
  "id_node node_a = utf16 ''a''" "id_node node_b = utf16 ''b''"
  "id_node node_c = utf16 ''c''" "id_node node_d = utf16 ''d''"
  by (simp_all add: node_a_def node_b_def node_c_def node_d_def)

lemma edge_fields:
  "source_node_id (edge s t w) = utf16 s" "target_node_id (edge s t w) = utf16 t"
  "EdgeRecord.weight (edge s t w) = w"
  by (simp_all add: edge_def)

lemma vector_search_acd:
  "0 \<le> k \<Longrightarrow> vector_search (localEmbedding_query (utf16 ''graph'')) [node_a, node_c, node_d] k
     = take (nat k) [scored (localEmbedding_query (utf16 ''graph'')) node_a,
                 scored (localEmbedding_query (utf16 ''graph'')) node_c,
                 scored (localEmbedding_query (utf16 ''graph'')) node_d]"
  by (simp add: vector_search_def js_sort_def js_slice_def scored_fields example_scores)

lemma fetch_edges_acd_all:
  "fetch_edges store_acd [scored q node_a, scored q node_c, scored q node_d] = edges_acd"
  by (simp add: fetch_edges_def store_acd_def scored_fields example_ids edges_acd_def edge_fields)

lemma merged_acd:
  "map (\<lambda>h. (CombinedResult.nodeId h, CombinedResult.vectorScore h, CombinedResult.graphScore h, connections h))
   (map snd (merge_results L [scored (localEmbedding_query (utf16 ''graph'')) node_a,
        scored (localEmbedding_query (utf16 ''graph'')) node_c,
        scored (localEmbedding_query (utf16 ''graph'')) node_d] (map (graph_result L) edges_acd)))
   = [(utf16 ''a'', 1, 0, 2), (utf16 ''c'', - 1, 1, 2), (utf16 ''d'', - 1, 1, 2)]"
  by (simp add: merge_results_def add_vector_result_def vector_entry_def merge_graph_result_def
      graph_entry_def graph_result_fields edges_acd_def edge_fields scored_fields example_ids example_scores)

lemma request_fields:
  "query (request k vw gw) = utf16 ''graph''" "topK (request k vw gw) = k"
  "vectorWeight (request k vw gw) = vw" "graphWeight (request k vw gw) = gw"
  by (simp_all add: request_def)

lemma hybrid_search_acd:
  "hybrid_search store_acd (request k vw gw)
     = Inr (search_response store_acd (request k vw gw) (localEmbedding_query (utf16 ''graph''))
              [node_a, node_c, node_d])"
  using hybrid_search_Inr [of store_acd "request k vw gw" "[node_a, node_c, node_d]"]
  by (simp add: store_acd_def request_fields)

lemma hybrid_search_ab:
  "hybrid_search store_ab (request k vw gw)
     = Inr (search_response store_ab (request k vw gw) (localEmbedding_query (utf16 ''graph''))
              [node_a, node_b])"
  using hybrid_search_Inr [of store_ab "request k vw gw" "[node_a, node_b]"]
  by (simp add: store_ab_def request_fields)

lemma vector_search_ab:
  "0 \<le> k \<Longrightarrow> vector_search (localEmbedding_query (utf16 ''graph'')) [node_a, node_b] k
     = take (nat k) [scored (localEmbedding_query (utf16 ''graph'')) node_a,
                     scored (localEmbedding_query (utf16 ''graph'')) node_b]"
  by (simp add: vector_search_def js_sort_def js_slice_def scored_fields example_scores)

lemma example_defined:
  "cosine_defined (localEmbedding_query (utf16 ''graph'')) (embedding node_a)"
  "cosine_defined (localEmbedding_query (utf16 ''graph'')) (embedding node_b)"
  "cosine_defined (localEmbedding_query (utf16 ''graph'')) (embedding node_c)"
  "cosine_defined (localEmbedding_query (utf16 ''graph'')) (embedding node_d)"
  by (simp_all add: node_a_def node_b_def node_c_def node_d_def cosine_defined_embeddings
      cosine_defined_opposite)


lemma acd_half_results:
  fixes resp
  defines "resp \<equiv> search_response store_acd (request 10 (1 / 2) (1 / 2))
                   (localEmbedding_query (utf16 ''graph'')) [node_a, node_c, node_d]"
  shows "map VectorResult.nodeId (vectorResults resp) = [utf16 ''a'', utf16 ''c'', utf16 ''d'']"
    and "map (\<lambda>g. (sourceNode g, GraphResult.nodeId g, GraphResult.graphScore g)) (graphResults resp)
          = [(utf16 ''a'', utf16 ''c'', - 1), (utf16 ''a'', utf16 ''d'', - 1),
             (utf16 ''c'', utf16 ''d'', 1), (utf16 ''c'', utf16 ''a'', - 1),
             (utf16 ''d'', utf16 ''c'', 1), (utf16 ''d'', utf16 ''a'', - 1)]"
    and "map (\<lambda>h. (CombinedResult.nodeId h, CombinedResult.graphScore h, connections h))
            (hybridResults resp)
          = [(utf16 ''a'', 0, 2), (utf16 ''c'', 1, 2), (utf16 ''d'', 1, 2)]"
proof -
  let ?q = "localEmbedding_query (utf16 ''graph'')"
  let ?vs = "[scored ?q node_a, scored ?q node_c, scored ?q node_d]"
  let ?resp = "search_response store_acd (request 10 (1 / 2) (1 / 2)) ?q [node_a, node_c, node_d]"
  have vs: "vectorResults ?resp = ?vs"
    by (simp add: search_response_vectorResults request_fields vector_search_acd)
  have gs: "graphResults ?resp
      = map (graph_result (node_lookup store_acd [node_a, node_c, node_d] edges_acd)) edges_acd"
    by (simp add: search_response_graphResults request_fields vector_search_acd fetch_edges_acd_all)
  have hs: "hybridResults ?resp = hybrid_rank (1 / 2) (1 / 2) 10
     (merge_results (node_lookup store_acd [node_a, node_c, node_d] edges_acd) ?vs
        (map (graph_result (node_lookup store_acd [node_a, node_c, node_d] edges_acd)) edges_acd))"
    unfolding search_response_hybridResults vs gs
    by (simp add: request_fields vector_search_acd fetch_edges_acd_all)
  show "map (\<lambda>h. (CombinedResult.nodeId h, CombinedResult.graphScore h, connections h))
            (hybridResults resp)
          = [(utf16 ''a'', 0, 2), (utf16 ''c'', 1, 2), (utf16 ''d'', 1, 2)]"
    unfolding resp_def hs
    by (simp add: hybrid_rank_def js_sort_def js_slice_def with_hybrid_score_def
      merge_results_def add_vector_result_def vector_entry_def merge_graph_result_def
      graph_entry_def graph_result_fields edges_acd_def edge_fields scored_fields example_ids
      example_scores)
  show "map VectorResult.nodeId (vectorResults resp) = [utf16 ''a'', utf16 ''c'', utf16 ''d'']"
    unfolding resp_def vs by (simp add: scored_fields example_ids)
  show "map (\<lambda>g. (sourceNode g, GraphResult.nodeId g, GraphResult.graphScore g)) (graphResults resp)
          = [(utf16 ''a'', utf16 ''c'', - 1), (utf16 ''a'', utf16 ''d'', - 1),
             (utf16 ''c'', utf16 ''d'', 1), (utf16 ''c'', utf16 ''a'', - 1),
             (utf16 ''d'', utf16 ''c'', 1), (utf16 ''d'', utf16 ''a'', - 1)]"
    unfolding resp_def gs by (simp add: graph_result_fields edges_acd_def edge_fields)
qed


text \<open>
  C1. A node present in both the vector results and the graph results is claimed to have
  the maximum weight of its contributing edges as graph score. Node \<open>a\<close> is a vector result
  and the target of two edges of weight -1, from \<open>c\<close> and from \<open>d\<close>: it has 2 connections
  and its graph score is 0, not the maximum edge weight -1. The merge starts a vector result
  at graph score 0 and takes the maximum with this 0, whereas a node that is not a vector
  result starts at the weight of its first edge (lemma \<open>fusion_scores\<close>).
\<close>

theorem fusion_negative_weight:
  "(case hybrid_search store_acd (request 10 (1 / 2) (1 / 2)) of
      Inl e \<Rightarrow> False
    | Inr resp \<Rightarrow>
        map VectorResult.nodeId (vectorResults resp) = [utf16 ''a'', utf16 ''c'', utf16 ''d'']
      \<and> map (\<lambda>g. (sourceNode g, GraphResult.nodeId g, GraphResult.graphScore g)) (graphResults resp)
          = [(utf16 ''a'', utf16 ''c'', - 1), (utf16 ''a'', utf16 ''d'', - 1),
             (utf16 ''c'', utf16 ''d'', 1), (utf16 ''c'', utf16 ''a'', - 1),
             (utf16 ''d'', utf16 ''c'', 1), (utf16 ''d'', utf16 ''a'', - 1)]
      \<and> map (\<lambda>h. (CombinedResult.nodeId h, CombinedResult.graphScore h, connections h))
            (hybridResults resp)
          = [(utf16 ''a'', 0, 2), (utf16 ''c'', 1, 2), (utf16 ''d'', 1, 2)])"
  by (simp only: hybrid_search_acd sum.case acd_half_results simp_thms)

text \<open>The scores of node \<open>a\<close> in this example, by the general rule.\<close>

lemma fusion_scores_example:
  "\<exists>resp. hybrid_search store_acd (request 10 (1 / 2) (1 / 2)) = Inr resp
     \<and> (\<exists>h\<in>set (hybridResults resp).
           CombinedResult.nodeId h = utf16 ''a''
         \<and> CombinedResult.nodeId h \<in> VectorResult.nodeId ` set (vectorResults resp)
         \<and> hybridScore h = CombinedResult.vectorScore h * (1 / 2) + CombinedResult.graphScore h * (1 / 2)
         \<and> connections h = 2
         \<and> CombinedResult.graphScore h
             = Max (insert 0 (GraphResult.graphScore `
                  {g \<in> set (graphResults resp). GraphResult.nodeId g = utf16 ''a''})))"
proof -
  let ?R = "request 10 (1 / 2) (1 / 2)"
  let ?resp = "search_response store_acd ?R (localEmbedding_query (utf16 ''graph''))
                 [node_a, node_c, node_d]"
  have "select_nodes_by_file store_acd (SearchRequest.fileId ?R) = Some [node_a, node_c, node_d]"
    by (simp add: store_acd_def)
  moreover have "[node_a, node_c, node_d] \<noteq> []" by simp
  moreover have "\<forall>node\<in>set [node_a, node_c, node_d].
       cosine_defined (localEmbedding_query (query ?R)) (embedding node)"
    by (simp add: request_fields example_defined)
  ultimately obtain resp where r: "hybrid_search store_acd ?R = Inr resp"
    and all: "\<forall>h\<in>set (hybridResults resp).
          hybridScore h = CombinedResult.vectorScore h * vectorWeight ?R
                          + CombinedResult.graphScore h * graphWeight ?R
        \<and> connections h
            = length (filter (\<lambda>g. GraphResult.nodeId g = CombinedResult.nodeId h) (graphResults resp))
        \<and> (CombinedResult.nodeId h \<in> VectorResult.nodeId ` set (vectorResults resp) \<longrightarrow>
             CombinedResult.graphScore h
               = Max (insert 0 (GraphResult.graphScore `
                     {g \<in> set (graphResults resp). GraphResult.nodeId g = CombinedResult.nodeId h})))
        \<and> (CombinedResult.nodeId h \<in> VectorResult.nodeId ` set (vectorResults resp)
             \<and> CombinedResult.nodeId h \<notin> GraphResult.nodeId ` set (graphResults resp) \<longrightarrow>
             CombinedResult.graphScore h = 0)
        \<and> (CombinedResult.nodeId h \<notin> VectorResult.nodeId ` set (vectorResults resp) \<longrightarrow>
             CombinedResult.nodeId h \<in> GraphResult.nodeId ` set (graphResults resp)
             \<and> CombinedResult.vectorScore h = 0
             \<and> CombinedResult.graphScore h
               = Max (GraphResult.graphScore `
                     {g \<in> set (graphResults resp). GraphResult.nodeId g = CombinedResult.nodeId h}))"
    using fusion_scores [of store_acd ?R "[node_a, node_c, node_d]"] by blast
  have e: "resp = ?resp" using r by (simp only: hybrid_search_acd sum.inject)
  obtain h hs where hs: "hybridResults resp = h # hs"
    using acd_half_results(3) unfolding e by (cases "hybridResults ?resp") auto
  have h: "CombinedResult.nodeId h = utf16 ''a''" "connections h = 2"
    using acd_half_results(3) hs unfolding e by auto
  have v: "CombinedResult.nodeId h \<in> VectorResult.nodeId ` set (vectorResults resp)"
  proof -
    have "utf16 ''a'' \<in> set (map VectorResult.nodeId (vectorResults resp))"
      unfolding e acd_half_results(1) by simp
    then show ?thesis unfolding h(1) by simp
  qed
  have hin: "h \<in> set (hybridResults resp)" unfolding hs by simp
  note p = all [rule_format, OF hin]
  have "hybridScore h = CombinedResult.vectorScore h * (1 / 2) + CombinedResult.graphScore h * (1 / 2)"
    using p by (simp add: request_fields)
  moreover have "CombinedResult.graphScore h
             = Max (insert 0 (GraphResult.graphScore `
                  {g \<in> set (graphResults resp). GraphResult.nodeId g = utf16 ''a''}))"
    using p v unfolding h(1) by blast
  ultimately show ?thesis using r hin h v by blast
qed

theorem vector_results_ranked_witness:
  "\<exists>resp. hybrid_search store_ab (request 10 (1 / 2) (1 / 2)) = Inr resp
     \<and> sorted_wrt (\<lambda>a b. VectorResult.vectorScore b \<le> VectorResult.vectorScore a)
          (vectorResults resp)
     \<and> prefix (map VectorResult.nodeId
                 (filter (\<lambda>r. VectorResult.vectorScore r = 1) (vectorResults resp)))
              [utf16 ''a'', utf16 ''b'']
     \<and> int (length (vectorResults resp)) \<le> 10"
proof -
  have "select_nodes_by_file store_ab (SearchRequest.fileId (request 10 (1 / 2) (1 / 2)))
      = Some [node_a, node_b]"
    by (simp add: store_ab_def)
  moreover have "[node_a, node_b] \<noteq> []" by simp
  moreover have "\<forall>node\<in>set [node_a, node_b].
       cosine_defined (localEmbedding_query (query (request 10 (1 / 2) (1 / 2)))) (embedding node)"
    by (simp add: request_fields example_defined)
  ultimately obtain resp where r: "hybrid_search store_ab (request 10 (1 / 2) (1 / 2)) = Inr resp"
    "sorted_wrt (\<lambda>a b. VectorResult.vectorScore b \<le> VectorResult.vectorScore a) (vectorResults resp)"
    "\<forall>s. prefix
           (map VectorResult.nodeId
              (filter (\<lambda>r. VectorResult.vectorScore r = s) (vectorResults resp)))
           (map id_node
              (filter (\<lambda>node. cosine (localEmbedding_query (query (request 10 (1 / 2) (1 / 2))))
                                 (embedding node) = s)
                 [node_a, node_b]))"
    "0 \<le> topK (request 10 (1 / 2) (1 / 2)) \<longrightarrow>
       int (length (vectorResults resp)) \<le> topK (request 10 (1 / 2) (1 / 2))"
    using vector_results_ranked [of store_ab "request 10 (1 / 2) (1 / 2)" "[node_a, node_b]"]
    by blast
  have "prefix (map VectorResult.nodeId
                 (filter (\<lambda>r. VectorResult.vectorScore r = 1) (vectorResults resp)))
              [utf16 ''a'', utf16 ''b'']"
    using r(3) [rule_format, of 1] by (simp add: request_fields example_scores example_ids)
  moreover have "int (length (vectorResults resp)) \<le> 10"
    using r(4) by (simp add: request_fields)
  ultimately show ?thesis using r(1,2) by blast
qed

text \<open>
  With \<open>vectorWeight = 1\<close>, \<open>graphWeight = 0\<close> and \<open>topK = 2\<close> the vector results are \<open>a\<close>
  (score 1) and \<open>c\<close> (score -1); node \<open>d\<close>, reached by an edge only, enters the fusion with
  vector score 0 and is ranked before \<open>c\<close>.
\<close>

lemma hybrid_order_graph_only:
  "(case hybrid_search store_acd (request 2 1 0) of
      Inl e \<Rightarrow> False
    | Inr resp \<Rightarrow>
        map VectorResult.nodeId (vectorResults resp) = [utf16 ''a'', utf16 ''c'']
      \<and> map CombinedResult.nodeId (hybridResults resp) = [utf16 ''a'', utf16 ''d''])"
proof -
  let ?q = "localEmbedding_query (utf16 ''graph'')"
  let ?vs = "[scored ?q node_a, scored ?q node_c]"
  let ?es = "[edge ''a'' ''c'' (- 1), edge ''a'' ''d'' (- 1), edge ''c'' ''d'' 1, edge ''c'' ''a'' (- 1)]"
  let ?resp = "search_response store_acd (request 2 1 0) ?q [node_a, node_c, node_d]"
  let ?L = "node_lookup store_acd [node_a, node_c, node_d] ?es"
  have vs: "vectorResults ?resp = ?vs"
    by (simp add: search_response_vectorResults request_fields vector_search_acd)
  have es: "fetch_edges store_acd ?vs = ?es"
    by (simp add: fetch_edges_def store_acd_def scored_fields example_ids edges_acd_def edge_fields)
  have gs: "graphResults ?resp = map (graph_result ?L) ?es"
    by (simp add: search_response_graphResults request_fields vector_search_acd es)
  have hs: "hybridResults ?resp = hybrid_rank 1 0 2 (merge_results ?L ?vs (map (graph_result ?L) ?es))"
    unfolding search_response_hybridResults vs gs
    by (simp add: request_fields vector_search_acd es)
  have "map CombinedResult.nodeId (hybridResults ?resp) = [utf16 ''a'', utf16 ''d'']"
    unfolding hs
    by (simp add: hybrid_rank_def js_sort_def js_slice_def with_hybrid_score_def
      merge_results_def add_vector_result_def vector_entry_def merge_graph_result_def
      graph_entry_def graph_result_fields edge_fields scored_fields example_ids
      example_scores)
  moreover have "map VectorResult.nodeId (vectorResults ?resp) = [utf16 ''a'', utf16 ''c'']"
    unfolding vs by (simp add: scored_fields example_ids)
  ultimately show ?thesis
    by (simp only: hybrid_search_acd sum.case simp_thms)
qed

text \<open>
  With \<open>topK = -1\<close> each \<open>slice(0, topK)\<close> drops the last entry of its own list: of the two
  nodes the vector results keep \<open>a\<close>, and of the one merged entry the hybrid results keep
  nothing.
\<close>

lemma hybrid_order_negative_topK:
  "(case hybrid_search store_ab (request (- 1) 1 0) of
      Inl e \<Rightarrow> False
    | Inr resp \<Rightarrow>
        map VectorResult.nodeId (vectorResults resp) = [utf16 ''a'']
      \<and> map CombinedResult.nodeId (hybridResults resp) = [])"
proof -
  let ?q = "localEmbedding_query (utf16 ''graph'')"
  let ?vs = "[scored ?q node_a]"
  let ?resp = "search_response store_ab (request (- 1) 1 0) ?q [node_a, node_b]"
  let ?L = "node_lookup store_ab [node_a, node_b] []"
  have v: "vector_search ?q [node_a, node_b] (- 1) = ?vs"
    by (simp add: vector_search_def js_sort_def js_slice_def scored_fields example_scores)
  have vs: "vectorResults ?resp = ?vs"
    by (simp add: search_response_vectorResults request_fields v)
  have es: "fetch_edges store_ab ?vs = []"
    by (simp add: fetch_edges_def store_ab_def)
  have gs: "graphResults ?resp = []"
    by (simp add: search_response_graphResults request_fields v es)
  have hs: "hybridResults ?resp = hybrid_rank 1 0 (- 1) (merge_results ?L ?vs [])"
    unfolding search_response_hybridResults vs gs
    by (simp add: request_fields v es)
  have "map CombinedResult.nodeId (hybridResults ?resp) = []"
    unfolding hs
    by (simp add: hybrid_rank_def js_sort_def js_slice_def merge_results_def
        add_vector_result_def)
  moreover have "map VectorResult.nodeId (vectorResults ?resp) = [utf16 ''a'']"
    unfolding vs by (simp add: scored_fields example_ids)
  ultimately show ?thesis
    by (simp only: hybrid_search_ab sum.case simp_thms)
qed

text \<open>
  With \<open>vectorWeight = 1\<close> and \<open>graphWeight = 0\<close> the hybrid results do not have the order
  of the vector results: for \<open>topK = 2\<close> over the nodes \<open>a\<close>, \<open>c\<close>, \<open>d\<close> the vector results are
  \<open>a\<close>, \<open>c\<close> and the hybrid results \<open>a\<close>, \<open>d\<close>; for \<open>topK = -1\<close> over the nodes \<open>a\<close>, \<open>b\<close>
  the vector results are \<open>a\<close> and there is no hybrid result.
\<close>

theorem hybrid_order_differs:
  "(case hybrid_search store_acd (request 2 1 0) of
      Inl e \<Rightarrow> False
    | Inr resp \<Rightarrow>
        map VectorResult.nodeId (vectorResults resp) = [utf16 ''a'', utf16 ''c'']
      \<and> map CombinedResult.nodeId (hybridResults resp) = [utf16 ''a'', utf16 ''d''])
   \<and> (case hybrid_search store_ab (request (- 1) 1 0) of
      Inl e \<Rightarrow> False
    | Inr resp \<Rightarrow>
        map VectorResult.nodeId (vectorResults resp) = [utf16 ''a'']
      \<and> map CombinedResult.nodeId (hybridResults resp) = [])"
  using hybrid_order_graph_only hybrid_order_negative_topK by (rule conjI)

lemma distinct_map_insort:
  "distinct (map f (insort_key g x xs)) \<longleftrightarrow> f x \<notin> f ` set xs \<and> distinct (map f xs)"
  by (induction xs) (auto simp: set_insort_key)

lemma distinct_map_sort: "distinct (map f (sort_key g xs)) = distinct (map f xs)"
  by (induction xs) (simp_all add: distinct_map_insort)

lemma vector_search_distinct:
  assumes "distinct (map id_node typedNodes)"
  shows "distinct (map VectorResult.nodeId (vector_search q typedNodes k))"
proof -
  obtain m where m: "vector_search q typedNodes k
      = take m (js_sort (\<lambda>a b. VectorResult.vectorScore b - VectorResult.vectorScore a)
          (map (scored q) typedNodes))"
    unfolding vector_search_def using js_slice_take by blast
  have e: "map VectorResult.nodeId (map (scored q) typedNodes) = map id_node typedNodes"
    by (simp add: scored_fields comp_def)
  have "distinct (map VectorResult.nodeId (map (scored q) typedNodes))"
    unfolding e by (rule assms)
  then have "distinct (map VectorResult.nodeId
      (js_sort (\<lambda>a b. VectorResult.vectorScore b - VectorResult.vectorScore a)
          (map (scored q) typedNodes)))"
    by (simp only: js_sort_sort_key distinct_map_sort)
  then show ?thesis unfolding m by (simp only: take_map [symmetric] distinct_take)
qed

lemma js_sort_sorted_id:
  assumes "sorted_wrt (\<lambda>a b. key b \<le> key a) xs"
  shows "js_sort (\<lambda>a b. key b - key a) xs = xs"
proof -
  have "sorted (map (\<lambda>x. - key x) xs)" using assms by (simp add: sorted_map)
  then show ?thesis by (simp only: js_sort_sort_key sort_key_id_if_sorted)
qed

lemma update_new: "k \<notin> fst ` set c \<Longrightarrow> AList.update k v c = c @ [(k, v)]"
  by (induction c) auto

lemma update_same_projection:
  "map_of c k = Some e \<Longrightarrow> F (k, v) = F (k, e) \<Longrightarrow> map F (AList.update k v c) = map F c"
  by (induction c) (auto split: if_splits)

lemma key_scores_merge:
  "key_scores (merge_graph_result L g c)
     = (if GraphResult.nodeId g \<in> fst ` set c then key_scores c
        else key_scores c @ [(GraphResult.nodeId g, GraphResult.nodeId g, 0)])"
proof (cases "map_of c (GraphResult.nodeId g)")
  case None
  then have "GraphResult.nodeId g \<notin> fst ` set c" by (simp add: map_of_eq_None_iff)
  then show ?thesis using None
    by (simp add: merge_graph_result_def update_new key_scores_def graph_entry_def)
next
  case (Some e)
  then have "GraphResult.nodeId g \<in> fst ` set c"
    by (metis map_of_eq_None_iff option.distinct(1))
  then show ?thesis using Some
    unfolding key_scores_def merge_graph_result_def
    by (simp add: update_same_projection [OF Some])
qed

lemma keys_key_scores: "fst ` set c = fst ` set (key_scores c)"
  by (force simp: key_scores_def)

lemma key_scores_merge_all:
  "\<exists>ks. key_scores (fold (merge_graph_result L) gs c) = key_scores c @ map (\<lambda>k. (k, k, 0)) ks
     \<and> set ks = GraphResult.nodeId ` set gs - fst ` set c"
proof (induction gs arbitrary: c)
  case Nil
  have "key_scores c = key_scores c @ map (\<lambda>k. (k, k, 0)) [] \<and> set [] = {}" by simp
  then show ?case by (simp del: append_Nil2)
next
  case (Cons g gs)
  obtain ks where ks: "key_scores (fold (merge_graph_result L) gs (merge_graph_result L g c))
     = key_scores (merge_graph_result L g c) @ map (\<lambda>k. (k, k, 0)) ks"
    "set ks = GraphResult.nodeId ` set gs - fst ` set (merge_graph_result L g c)"
    using Cons.IH by blast
  show ?case
  proof (cases "GraphResult.nodeId g \<in> fst ` set c")
    case True
    then have "fst ` set (merge_graph_result L g c) = fst ` set c"
      by (simp add: keys_key_scores [of "merge_graph_result L g c"] key_scores_merge
          keys_key_scores [symmetric])
    then have "set ks = GraphResult.nodeId ` set (g # gs) - fst ` set c"
      using ks(2) True by auto
    moreover have "key_scores (fold (merge_graph_result L) (g # gs) c)
       = key_scores c @ map (\<lambda>k. (k, k, 0)) ks"
      using ks(1) True by (simp add: key_scores_merge)
    ultimately show ?thesis by blast
  next
    case False
    then have "fst ` set (merge_graph_result L g c) = insert (GraphResult.nodeId g) (fst ` set c)"
      by (simp add: keys_key_scores [of "merge_graph_result L g c"] key_scores_merge
          keys_key_scores [symmetric])
    then have "set (GraphResult.nodeId g # ks) = GraphResult.nodeId ` set (g # gs) - fst ` set c"
      using ks(2) False by auto
    moreover have "key_scores (fold (merge_graph_result L) (g # gs) c)
       = key_scores c @ map (\<lambda>k. (k, k, 0)) (GraphResult.nodeId g # ks)"
      using ks(1) False by (simp add: key_scores_merge)
    ultimately show ?thesis by blast
  qed
qed

lemma key_scores_add_vectors:
  assumes "distinct (map VectorResult.nodeId vs)"
    and "VectorResult.nodeId ` set vs \<inter> fst ` set c = {}"
  shows "key_scores (fold add_vector_result vs c)
     = key_scores c @ map (\<lambda>v. (VectorResult.nodeId v, VectorResult.nodeId v, VectorResult.vectorScore v)) vs"
  using assms
proof (induction vs arbitrary: c)
  case Nil then show ?case by simp
next
  case (Cons v vs)
  have n: "VectorResult.nodeId v \<notin> fst ` set c" using Cons.prems(2) by auto
  then have a: "add_vector_result v c = c @ [(VectorResult.nodeId v, vector_entry v)]"
    by (simp add: add_vector_result_def update_new)
  have "VectorResult.nodeId ` set vs \<inter> fst ` set (add_vector_result v c) = {}"
    using Cons.prems unfolding a by auto
  then have "key_scores (fold add_vector_result vs (add_vector_result v c))
     = key_scores (add_vector_result v c)
       @ map (\<lambda>v. (VectorResult.nodeId v, VectorResult.nodeId v, VectorResult.vectorScore v)) vs"
    using Cons.IH Cons.prems(1) by simp
  then show ?case by (simp add: a key_scores_def vector_entry_def)
qed

lemma key_scores_merge_results:
  assumes "distinct (map VectorResult.nodeId vs)"
  shows "\<exists>ks. key_scores (merge_results L vs gs)
     = map (\<lambda>v. (VectorResult.nodeId v, VectorResult.nodeId v, VectorResult.vectorScore v)) vs
       @ map (\<lambda>k. (k, k, 0)) ks
     \<and> set ks = GraphResult.nodeId ` set gs - VectorResult.nodeId ` set vs"
proof -
  let ?c0 = "fold add_vector_result vs []"
  have c0: "key_scores ?c0
     = map (\<lambda>v. (VectorResult.nodeId v, VectorResult.nodeId v, VectorResult.vectorScore v)) vs"
    using key_scores_add_vectors [OF assms, of "[]"] by (simp add: key_scores_def)
  have "fst ` set ?c0 = VectorResult.nodeId ` set vs"
    unfolding keys_key_scores [of ?c0] c0 by force
  then show ?thesis
    using key_scores_merge_all [of L gs ?c0] c0
    by (simp add: merge_results_def)
qed

lemma sorted_zeros: "sorted_wrt (\<lambda>x y. y \<le> x) (map (\<lambda>k. 0::real) ks)"
  by (induction ks) auto

text \<open>
  With the weights 1 and 0 the list that is sorted for the hybrid ranking carries, entry by
  entry, the vector results with their scores and then the graph-only nodes with score 0.
\<close>

lemma hybrid_entries_vector_only:
  assumes d: "distinct (map VectorResult.nodeId vs)"
  shows "\<exists>ks. map (\<lambda>h. (CombinedResult.nodeId h, hybridScore h))
               (map (with_hybrid_score 1 0) (map snd (merge_results L vs gs)))
            = map (\<lambda>v. (VectorResult.nodeId v, VectorResult.vectorScore v)) vs
              @ map (\<lambda>k. (k, 0)) ks
          \<and> set ks = GraphResult.nodeId ` set gs - VectorResult.nodeId ` set vs"
proof -
  let ?c = "merge_results L vs gs"
  obtain ks where ks: "key_scores ?c
     = map (\<lambda>v. (VectorResult.nodeId v, VectorResult.nodeId v, VectorResult.vectorScore v)) vs
       @ map (\<lambda>k. (k, k, 0)) ks"
     "set ks = GraphResult.nodeId ` set gs - VectorResult.nodeId ` set vs"
    using key_scores_merge_results [OF d] by blast
  have "map (\<lambda>h. (CombinedResult.nodeId h, hybridScore h))
               (map (with_hybrid_score 1 0) (map snd ?c))
      = map (\<lambda>(k, n, s). (n, s)) (key_scores ?c)"
    by (simp add: key_scores_def with_hybrid_score_def comp_def case_prod_beta)
  also have "\<dots> = map (\<lambda>v. (VectorResult.nodeId v, VectorResult.vectorScore v)) vs
              @ map (\<lambda>k. (k, 0)) ks"
    unfolding ks(1) by (simp add: comp_def)
  finally show ?thesis using ks(2) by blast
qed

lemma ranked_sorted_take:
  fixes sc :: "'a \<Rightarrow> real"
  assumes pairs: "map (\<lambda>h. (nid h, sc h)) H = map (\<lambda>v. (vid v, vsc v)) vs @ map (\<lambda>k. (k, 0)) ks"
    and sorted_vs: "sorted_wrt (\<lambda>a b. vsc b \<le> vsc a) vs"
    and ok: "ks = [] \<or> (\<forall>v\<in>set vs. 0 \<le> vsc v)"
  shows "map nid (take n (js_sort (\<lambda>a b. sc b - sc a) H)) = take n (map vid vs @ ks)"
proof -
  have ids: "map nid H = map vid vs @ ks"
  proof -
    have "map nid H = map fst (map (\<lambda>h. (nid h, sc h)) H)" by (simp add: comp_def)
    then show ?thesis unfolding pairs by (simp add: comp_def)
  qed
  have scs: "map sc H = map vsc vs @ map (\<lambda>k. 0) ks"
  proof -
    have "map sc H = map snd (map (\<lambda>h. (nid h, sc h)) H)" by (simp add: comp_def)
    then show ?thesis unfolding pairs by (simp add: comp_def)
  qed
  have "sorted_wrt (\<lambda>x y. y \<le> x) (map vsc vs)"
    using sorted_vs by (simp add: sorted_wrt_map)
  then have "sorted_wrt (\<lambda>x y. y \<le> x) (map sc H)"
    unfolding scs using ok sorted_zeros [of ks] by (auto simp: sorted_wrt_append)
  then have "sorted_wrt (\<lambda>a b. sc b \<le> sc a) H"
    by (simp only: sorted_wrt_map)
  then have "js_sort (\<lambda>a b. sc b - sc a) H = H"
    by (rule js_sort_sorted_id)
  then show ?thesis by (simp add: take_map ids [symmetric])
qed

lemma ranked_order_iff:
  fixes sc :: "'a \<Rightarrow> real"
  assumes pairs: "map (\<lambda>h. (nid h, sc h)) H = map (\<lambda>v. (vid v, vsc v)) vs @ map (\<lambda>k. (k, 0)) ks"
    and d: "distinct (map vid vs)"
    and disj: "set ks \<inter> vid ` set vs = {}"
    and sorted_vs: "sorted_wrt (\<lambda>a b. vsc b \<le> vsc a) vs"
    and len: "length vs \<le> n"
  shows "map nid (take n (js_sort (\<lambda>a b. sc b - sc a) H)) = map vid vs
     \<longleftrightarrow> ks = [] \<or> ((\<forall>v\<in>set vs. 0 \<le> vsc v) \<and> length vs = n)"
proof
  assume r: "ks = [] \<or> ((\<forall>v\<in>set vs. 0 \<le> vsc v) \<and> length vs = n)"
  then have "ks = [] \<or> (\<forall>v\<in>set vs. 0 \<le> vsc v)" by blast
  then have e: "map nid (take n (js_sort (\<lambda>a b. sc b - sc a) H)) = take n (map vid vs @ ks)"
    by (rule ranked_sorted_take [OF pairs sorted_vs])
  show "map nid (take n (js_sort (\<lambda>a b. sc b - sc a) H)) = map vid vs"
    unfolding e using r len by auto
next
  let ?S = "js_sort (\<lambda>a b. sc b - sc a) H"
  assume eq: "map nid (take n ?S) = map vid vs"
  show "ks = [] \<or> ((\<forall>v\<in>set vs. 0 \<le> vsc v) \<and> length vs = n)"
  proof (cases "ks = []")
    case True
    then show ?thesis by simp
  next
    case False
    then obtain k0 where k0: "k0 \<in> set ks" by (cases ks) auto
    then have k0v: "k0 \<notin> vid ` set vs" using disj by auto
    have setS: "set ?S = set H" by (rule js_sort_set)
    have mem: "(nid h, sc h) \<in> set (map (\<lambda>v. (vid v, vsc v)) vs) \<union> set (map (\<lambda>k. (k, 0)) ks)"
      if "h \<in> set H" for h
    proof -
      have "(nid h, sc h) \<in> set (map (\<lambda>h. (nid h, sc h)) H)" using that by auto
      then show ?thesis unfolding pairs by simp
    qed
    have "(k0, 0) \<in> set (map (\<lambda>h. (nid h, sc h)) H)"
      unfolding pairs using k0 by auto
    then obtain hk where hk: "hk \<in> set H" "nid hk = k0" "sc hk = 0" by auto
    have hk_drop: "hk \<in> set (drop n ?S)"
    proof -
      have "hk \<in> set (take n ?S) \<or> hk \<in> set (drop n ?S)"
        using hk(1) setS by (metis append_take_drop_id set_append Un_iff)
      moreover have "hk \<notin> set (take n ?S)"
      proof
        assume "hk \<in> set (take n ?S)"
        then have "k0 \<in> set (map nid (take n ?S))" using hk(2) by force
        then show False unfolding eq using k0v by auto
      qed
      ultimately show ?thesis by blast
    qed
    have sortedS: "sorted_wrt (\<lambda>a b. sc b \<le> sc a) ?S" by (rule js_sort_sorted)
    have nn: "0 \<le> vsc v" if v: "v \<in> set vs" for v
    proof -
      have "vid v \<in> set (map nid (take n ?S))" unfolding eq using v by simp
      then obtain h where h: "h \<in> set (take n ?S)" "nid h = vid v" by auto
      have "h \<in> set H" using h(1) setS by (auto dest: in_set_takeD)
      then have "(nid h, sc h) \<in> set (map (\<lambda>v. (vid v, vsc v)) vs) \<union> set (map (\<lambda>k. (k, 0)) ks)"
        by (rule mem)
      then have "sc h = vsc v"
      proof
        assume "(nid h, sc h) \<in> set (map (\<lambda>v. (vid v, vsc v)) vs)"
        then obtain v' where v': "v' \<in> set vs" "vid v' = nid h" "vsc v' = sc h" by auto
        then have "vid v' = vid v" using h(2) by simp
        then have "v' = v" using d v v'(1) by (simp add: distinct_map inj_on_def)
        then show ?thesis using v'(3) by simp
      next
        assume "(nid h, sc h) \<in> set (map (\<lambda>k. (k, 0)) ks)"
        then have "nid h \<in> set ks" by auto
        then show ?thesis using disj v h(2) by auto
      qed
      moreover have "sc hk \<le> sc h"
        using take_drop_ordered [OF sortedS h(1) hk_drop] .
      ultimately show ?thesis using hk(3) by simp
    qed
    then have "ks = [] \<or> (\<forall>v\<in>set vs. 0 \<le> vsc v)" by blast
    then have e: "map nid (take n ?S) = take n (map vid vs @ ks)"
      by (rule ranked_sorted_take [OF pairs sorted_vs])
    have "take n (map vid vs @ ks) = map vid vs @ take (n - length vs) ks"
      using len by simp
    then have "take (n - length vs) ks = []" using e eq by simp
    then have "n - length vs = 0" using False by (cases ks) auto
    then have "length vs = n" using len by simp
    then show ?thesis using nn by blast
  qed
qed

lemma hybrid_rank_vector_only:
  assumes d: "distinct (map VectorResult.nodeId vs)"
    and s: "sorted_wrt (\<lambda>a b. VectorResult.vectorScore b \<le> VectorResult.vectorScore a) vs"
    and k: "0 \<le> k"
    and len: "length vs \<le> nat k"
  shows "(map CombinedResult.nodeId (hybrid_rank 1 0 k (merge_results L vs gs))
            = map VectorResult.nodeId vs
          \<longleftrightarrow> GraphResult.nodeId ` set gs \<subseteq> VectorResult.nodeId ` set vs
              \<or> ((\<forall>v\<in>set vs. 0 \<le> VectorResult.vectorScore v) \<and> int (length vs) = k))
       \<and> ((\<forall>v\<in>set vs. 0 \<le> VectorResult.vectorScore v) \<longrightarrow>
            prefix (map VectorResult.nodeId vs)
                   (map CombinedResult.nodeId (hybrid_rank 1 0 k (merge_results L vs gs))))"
proof -
  let ?H = "map (with_hybrid_score 1 0) (map snd (merge_results L vs gs))"
  let ?S = "js_sort (\<lambda>a b. hybridScore b - hybridScore a) ?H"
  obtain ks where pairs: "map (\<lambda>h. (CombinedResult.nodeId h, hybridScore h)) ?H
            = map (\<lambda>v. (VectorResult.nodeId v, VectorResult.vectorScore v)) vs
              @ map (\<lambda>k. (k, 0)) ks"
    and ks: "set ks = GraphResult.nodeId ` set gs - VectorResult.nodeId ` set vs"
    using hybrid_entries_vector_only [OF d] by blast
  have r: "hybrid_rank 1 0 k (merge_results L vs gs) = take (nat k) ?S"
    using k by (simp add: hybrid_rank_def js_slice_nonneg)
  have disj: "set ks \<inter> VectorResult.nodeId ` set vs = {}" using ks by blast
  have e: "ks = [] \<longleftrightarrow> GraphResult.nodeId ` set gs \<subseteq> VectorResult.nodeId ` set vs"
  proof -
    have "ks = [] \<longleftrightarrow> set ks = {}" by simp
    then show ?thesis unfolding ks by blast
  qed
  have l: "length vs = nat k \<longleftrightarrow> int (length vs) = k" using k by auto
  have "map CombinedResult.nodeId (take (nat k) ?S) = map VectorResult.nodeId vs
     \<longleftrightarrow> ks = [] \<or> ((\<forall>v\<in>set vs. 0 \<le> VectorResult.vectorScore v) \<and> length vs = nat k)"
    by (rule ranked_order_iff [OF pairs d disj s len])
  then have iff: "map CombinedResult.nodeId (hybrid_rank 1 0 k (merge_results L vs gs))
            = map VectorResult.nodeId vs
          \<longleftrightarrow> GraphResult.nodeId ` set gs \<subseteq> VectorResult.nodeId ` set vs
              \<or> ((\<forall>v\<in>set vs. 0 \<le> VectorResult.vectorScore v) \<and> int (length vs) = k)"
    unfolding r e l .
  have pre: "prefix (map VectorResult.nodeId vs)
                   (map CombinedResult.nodeId (hybrid_rank 1 0 k (merge_results L vs gs)))"
    if nn: "\<forall>v\<in>set vs. 0 \<le> VectorResult.vectorScore v"
  proof -
    have "ks = [] \<or> (\<forall>v\<in>set vs. 0 \<le> VectorResult.vectorScore v)" using nn by blast
    then have "map CombinedResult.nodeId (take (nat k) ?S)
        = take (nat k) (map VectorResult.nodeId vs @ ks)"
      by (rule ranked_sorted_take [OF pairs s])
    also have "\<dots> = map VectorResult.nodeId vs @ take (nat k - length vs) ks"
      using len by simp
    finally show ?thesis unfolding r by (simp add: prefix_def)
  qed
  show ?thesis using iff pre by blast
qed

lemma hybrid_rank_scores:
  assumes "h \<in> set (hybrid_rank 1 0 k c)"
  shows "hybridScore h = CombinedResult.vectorScore h"
proof -
  obtain key r where "h = with_hybrid_score 1 0 r"
    using hybrid_rank_member [OF assms] by blast
  then show ?thesis by (simp add: with_hybrid_score_fields)
qed

text \<open>
  C8, as amended. With \<open>vectorWeight = 1\<close>, \<open>graphWeight = 0\<close>, a non-negative \<open>topK\<close> and
  distinct node ids, the hybrid results have the nodes of the vector results in the same
  order exactly when every graph result is for a node that is also a vector result, or no
  vector result has a negative score and there are \<open>topK\<close> vector results. Whenever no
  vector result has a negative score, the hybrid results start with the nodes of the vector
  results in the same order. The hybrid score of every hybrid result is its vector score.
\<close>

theorem hybrid_order_vector_weight_only:
  assumes "select_nodes_by_file store (SearchRequest.fileId req) = Some typedNodes"
    and "typedNodes \<noteq> []"
    and "\<forall>node\<in>set typedNodes. cosine_defined (localEmbedding_query (query req)) (embedding node)"
    and "distinct (map id_node typedNodes)"
    and "vectorWeight req = 1" and "graphWeight req = 0" and "0 \<le> topK req"
  shows "\<exists>resp. hybrid_search store req = Inr resp
     \<and> (map CombinedResult.nodeId (hybridResults resp)
            = map VectorResult.nodeId (vectorResults resp)
        \<longleftrightarrow> GraphResult.nodeId ` set (graphResults resp)
              \<subseteq> VectorResult.nodeId ` set (vectorResults resp)
            \<or> ((\<forall>v\<in>set (vectorResults resp). 0 \<le> VectorResult.vectorScore v)
                \<and> int (length (vectorResults resp)) = topK req))
     \<and> ((\<forall>v\<in>set (vectorResults resp). 0 \<le> VectorResult.vectorScore v) \<longrightarrow>
          prefix (map VectorResult.nodeId (vectorResults resp))
                 (map CombinedResult.nodeId (hybridResults resp)))
     \<and> (\<forall>h\<in>set (hybridResults resp). hybridScore h = CombinedResult.vectorScore h)"
proof -
  let ?q = "localEmbedding_query (query req)"
  let ?resp = "search_response store req ?q typedNodes"
  let ?vs = "vectorResults ?resp"
  let ?gs = "graphResults ?resp"
  have r: "hybrid_search store req = Inr ?resp"
    by (rule hybrid_search_Inr [OF assms(1,2)])
  have vs: "?vs = vector_search ?q typedNodes (topK req)"
    by (rule search_response_vectorResults)
  define L where "L = node_lookup store typedNodes
     (fetch_edges store (vector_search ?q typedNodes (topK req)))"
  have hs: "hybridResults ?resp = hybrid_rank 1 0 (topK req) (merge_results L ?vs ?gs)"
    unfolding assms(5,6) [symmetric] L_def by (rule search_response_hybridResults)
  have d: "distinct (map VectorResult.nodeId ?vs)"
    unfolding vs by (rule vector_search_distinct [OF assms(4)])
  have s: "sorted_wrt (\<lambda>a b. VectorResult.vectorScore b \<le> VectorResult.vectorScore a) ?vs"
    unfolding vs by (rule vector_search_sorted)
  have len: "length ?vs \<le> nat (topK req)"
    using vector_search_length [OF assms(7), of ?q typedNodes] unfolding vs by simp
  note main = hybrid_rank_vector_only [OF d s assms(7) len, of L ?gs, folded hs]
  have sc: "\<forall>h\<in>set (hybridResults ?resp). hybridScore h = CombinedResult.vectorScore h"
    unfolding hs by (blast intro: hybrid_rank_scores)
  show ?thesis
  proof (intro exI conjI)
    show "hybrid_search store req = Inr ?resp" by (rule r)
    show "map CombinedResult.nodeId (hybridResults ?resp) = map VectorResult.nodeId ?vs
        \<longleftrightarrow> GraphResult.nodeId ` set ?gs \<subseteq> VectorResult.nodeId ` set ?vs
            \<or> ((\<forall>v\<in>set ?vs. 0 \<le> VectorResult.vectorScore v) \<and> int (length ?vs) = topK req)"
      by (rule main [THEN conjunct1])
    show "(\<forall>v\<in>set ?vs. 0 \<le> VectorResult.vectorScore v) \<longrightarrow>
          prefix (map VectorResult.nodeId ?vs) (map CombinedResult.nodeId (hybridResults ?resp))"
      by (rule main [THEN conjunct2])
    show "\<forall>h\<in>set (hybridResults ?resp). hybridScore h = CombinedResult.vectorScore h"
      by (rule sc)
  qed
qed

theorem hybrid_order_vector_weight_only_witness:
  "\<exists>resp. hybrid_search store_acd (request 10 1 0) = Inr resp
     \<and> map (\<lambda>v. (VectorResult.nodeId v, VectorResult.vectorScore v)) (vectorResults resp)
         = [(utf16 ''a'', 1), (utf16 ''c'', - 1), (utf16 ''d'', - 1)]
     \<and> map CombinedResult.nodeId (hybridResults resp) = [utf16 ''a'', utf16 ''c'', utf16 ''d'']"
proof -
  let ?R = "request 10 1 0"
  let ?q = "localEmbedding_query (utf16 ''graph'')"
  let ?resp = "search_response store_acd ?R ?q [node_a, node_c, node_d]"
  have vs: "vectorResults ?resp = [scored ?q node_a, scored ?q node_c, scored ?q node_d]"
    by (simp add: search_response_vectorResults request_fields vector_search_acd)
  have gs: "graphResults ?resp
      = map (graph_result (node_lookup store_acd [node_a, node_c, node_d] edges_acd)) edges_acd"
    by (simp add: search_response_graphResults request_fields vector_search_acd fetch_edges_acd_all)
  have "select_nodes_by_file store_acd (SearchRequest.fileId ?R) = Some [node_a, node_c, node_d]"
    by (simp add: store_acd_def)
  moreover have "[node_a, node_c, node_d] \<noteq> []" by simp
  moreover have "\<forall>node\<in>set [node_a, node_c, node_d].
       cosine_defined (localEmbedding_query (query ?R)) (embedding node)"
    by (simp add: request_fields example_defined)
  moreover have "distinct (map id_node [node_a, node_c, node_d])"
    by (simp add: example_ids)
  moreover have "vectorWeight ?R = 1" "graphWeight ?R = 0" "0 \<le> topK ?R"
    by (simp_all add: request_fields)
  ultimately obtain resp where r: "hybrid_search store_acd ?R = Inr resp"
    and iff: "map CombinedResult.nodeId (hybridResults resp)
            = map VectorResult.nodeId (vectorResults resp)
        \<longleftrightarrow> GraphResult.nodeId ` set (graphResults resp)
              \<subseteq> VectorResult.nodeId ` set (vectorResults resp)
            \<or> ((\<forall>v\<in>set (vectorResults resp). 0 \<le> VectorResult.vectorScore v)
                \<and> int (length (vectorResults resp)) = topK ?R)"
    using hybrid_order_vector_weight_only [of store_acd ?R "[node_a, node_c, node_d]"] by blast
  have e: "resp = ?resp" using r by (simp only: hybrid_search_acd sum.inject)
  have sub: "GraphResult.nodeId ` set (graphResults resp)
              \<subseteq> VectorResult.nodeId ` set (vectorResults resp)"
    unfolding e vs gs
    by (simp add: graph_result_fields edges_acd_def edge_fields scored_fields example_ids)
  have ids: "map (\<lambda>v. (VectorResult.nodeId v, VectorResult.vectorScore v)) (vectorResults resp)
         = [(utf16 ''a'', 1), (utf16 ''c'', - 1), (utf16 ''d'', - 1)]"
    unfolding e vs by (simp add: scored_fields example_ids example_scores)
  have ids': "map VectorResult.nodeId (vectorResults resp) = [utf16 ''a'', utf16 ''c'', utf16 ''d'']"
    unfolding e vs by (simp add: scored_fields example_ids)
  have "map CombinedResult.nodeId (hybridResults resp)
            = map VectorResult.nodeId (vectorResults resp)"
    using iff sub by blast
  then have "map CombinedResult.nodeId (hybridResults resp) = [utf16 ''a'', utf16 ''c'', utf16 ''d'']"
    unfolding ids' .
  with r ids show ?thesis by (intro exI conjI)
qed

section \<open>Graph builder\<close>

lemma insort_key_lex:
  fixes f :: "'a \<Rightarrow> 'b::linorder"
  assumes "sorted_wrt (\<lambda>a b. f a < f b \<or> (f a = f b \<and> R a b)) ys"
    and "\<forall>y\<in>set ys. R x y"
  shows "sorted_wrt (\<lambda>a b. f a < f b \<or> (f a = f b \<and> R a b)) (insort_key f x ys)"
  using assms
proof (induction ys)
  case Nil
  then show ?case by simp
next
  case (Cons y ys)
  show ?case
  proof (cases "f x \<le> f y")
    case True
    have "f x < f z \<or> (f x = f z \<and> R x z)" if "z \<in> set (y # ys)" for z
    proof -
      have "f y \<le> f z" using that Cons.prems(1) by auto
      then have "f x \<le> f z" using True by simp
      moreover have "R x z" using that Cons.prems(2) by auto
      ultimately show ?thesis by auto
    qed
    then show ?thesis using True Cons.prems(1) by simp
  next
    case False
    have "sorted_wrt (\<lambda>a b. f a < f b \<or> (f a = f b \<and> R a b)) (insort_key f x ys)"
      using Cons by simp
    moreover have "f y < f z \<or> (f y = f z \<and> R y z)" if "z \<in> set (insort_key f x ys)" for z
      using that False Cons.prems(1) by (auto simp: set_insort_key)
    ultimately show ?thesis using False by simp
  qed
qed

lemma sort_key_lex:
  fixes f :: "'a \<Rightarrow> 'b::linorder"
  assumes "sorted_wrt R xs"
  shows "sorted_wrt (\<lambda>a b. f a < f b \<or> (f a = f b \<and> R a b)) (sort_key f xs)"
  using assms
proof (induction xs)
  case Nil
  then show ?case by simp
next
  case (Cons x xs)
  then show ?case by (simp add: insort_key_lex)
qed

lemma js_sort_lex:
  assumes "sorted_wrt R xs"
  shows "sorted_wrt (\<lambda>a b. key b < key a \<or> (key a = key b \<and> R a b))
           (js_sort (\<lambda>a b. key b - key a) xs)"
proof -
  have "sorted_wrt (\<lambda>a b. - key a < - key b \<or> (- key a = - key b \<and> R a b))
          (sort_key (\<lambda>x. - key x) xs)"
    using assms by (rule sort_key_lex)
  then show ?thesis by (simp add: js_sort_sort_key)
qed

lemma node_scores_sorted:
  "sorted_wrt (\<lambda>a b. fst a < fst b) (node_scores nodes embeddings i)"
  unfolding node_scores_def
  by (simp add: sorted_wrt_map sorted_wrt_filter)

lemma node_scores_set:
  "set (node_scores nodes embeddings i)
     = {(j, cosine (embeddings ! i) (embeddings ! j)) | j. j < length nodes \<and> j \<noteq> i}"
  unfolding node_scores_def by auto

lemma top5_take:
  "top5 nodes embeddings i
     = take 5 (js_sort (\<lambda>a b. snd b - snd a) (node_scores nodes embeddings i))"
  by (simp add: top5_def js_slice_def)

lemma top5_length: "length (top5 nodes embeddings i) \<le> 5"
  by (simp add: top5_take)

lemma top5_set:
  assumes "t \<in> set (top5 nodes embeddings i)"
  shows "fst t < length nodes \<and> fst t \<noteq> i \<and> snd t = cosine (embeddings ! i) (embeddings ! fst t)"
proof -
  have "t \<in> set (js_sort (\<lambda>a b. snd b - snd a) (node_scores nodes embeddings i))"
    using assms unfolding top5_take by (rule in_set_takeD)
  then have "t \<in> set (node_scores nodes embeddings i)"
    by (simp only: js_sort_set)
  then show ?thesis by (auto simp: node_scores_set)
qed

lemma top5_sorted: "sorted_wrt (\<lambda>a b. snd b \<le> snd a) (top5 nodes embeddings i)"
  unfolding top5_take by (rule sorted_wrt_take) (rule js_sort_sorted)

lemma top5_distinct: "distinct (map fst (top5 nodes embeddings i))"
proof -
  have "map fst (node_scores nodes embeddings i) = filter (\<lambda>j. \<not> i = j) [0..<length nodes]"
    by (simp add: node_scores_def comp_def)
  then have "distinct (map fst (node_scores nodes embeddings i))" by simp
  then have "distinct (map fst (js_sort (\<lambda>a b. snd b - snd a) (node_scores nodes embeddings i)))"
    by (simp only: js_sort_sort_key distinct_map_sort)
  then show ?thesis unfolding top5_take by (simp only: take_map [symmetric] distinct_take)
qed

lemma top5_best:
  assumes j: "(j, s) \<in> set (top5 nodes embeddings i)"
    and k: "k < length nodes" "k \<noteq> i" "k \<notin> fst ` set (top5 nodes embeddings i)"
  shows "cosine (embeddings ! i) (embeddings ! k) < s
     \<or> (cosine (embeddings ! i) (embeddings ! k) = s \<and> j < k)"
proof -
  let ?L = "js_sort (\<lambda>a b. snd b - snd a) (node_scores nodes embeddings i)"
  let ?c = "cosine (embeddings ! i) (embeddings ! k)"
  have "(k, ?c) \<in> set (node_scores nodes embeddings i)"
    using k(1,2) by (auto simp: node_scores_set)
  then have "(k, ?c) \<in> set ?L" by (simp only: js_sort_set)
  then have "(k, ?c) \<in> set (take 5 ?L) \<or> (k, ?c) \<in> set (drop 5 ?L)"
    by (metis append_take_drop_id set_append Un_iff)
  moreover have "(k, ?c) \<notin> set (take 5 ?L)"
    using k(3) unfolding top5_take by force
  ultimately have kd: "(k, ?c) \<in> set (drop 5 ?L)" by blast
  have "sorted_wrt (\<lambda>a b. snd b < snd a \<or> (snd a = snd b \<and> fst a < fst b)) ?L"
    by (rule js_sort_lex) (rule node_scores_sorted)
  then have "snd (k, ?c) < snd (j, s) \<or> (snd (j, s) = snd (k, ?c) \<and> fst (j, s) < fst (k, ?c))"
    using j kd unfolding top5_take by (rule take_drop_ordered)
  then show ?thesis by auto
qed

lemma concat_single:
  "distinct xs \<Longrightarrow> i \<in> set xs \<Longrightarrow> concat (map (\<lambda>j. if j = i then a else []) xs) = a"
proof (induction xs)
  case Nil
  then show ?case by simp
next
  case (Cons x xs)
  show ?case
  proof (cases "x = i")
    case True
    then have "i \<notin> set xs" using Cons.prems(1) by simp
    then have "map (\<lambda>j. if j = i then a else []) xs = map (\<lambda>j. []) xs"
      by (intro map_cong) auto
    then show ?thesis using True by simp
  next
    case False
    then show ?thesis using Cons by simp
  qed
qed

lemma node_edges_source:
  "e \<in> set (node_edges nodes embeddings i) \<Longrightarrow> source_node_id e = id_node (nodes ! i)"
  by (auto simp: node_edges_def)

lemma id_node_inject:
  assumes "distinct (map id_node nodes)" "i < length nodes" "j < length nodes"
  shows "id_node (nodes ! i) = id_node (nodes ! j) \<longleftrightarrow> i = j"
  using nth_eq_iff_index_eq [OF assms(1), of i j] assms(2,3) by simp

lemma edges_from_node_edges:
  assumes d: "distinct (map id_node nodes)" and i: "i < length nodes"
  shows "edges_from nodes embeddings i = node_edges nodes embeddings i"
proof -
  let ?P = "\<lambda>e. source_node_id e = id_node (nodes ! i)"
  have "filter ?P (node_edges nodes embeddings j)
      = (if j = i then node_edges nodes embeddings i else [])" if "j \<in> set [0..<length nodes]" for j
  proof (cases "j = i")
    case True
    then show ?thesis using node_edges_source [of _ nodes embeddings i] by (simp add: filter_id_conv)
  next
    case False
    have "j < length nodes" using that by simp
    then have "id_node (nodes ! j) \<noteq> id_node (nodes ! i)"
      using id_node_inject [OF d _ i, of j] False by simp
    then have "\<forall>e\<in>set (node_edges nodes embeddings j). \<not> ?P e"
      using node_edges_source [of _ nodes embeddings j] by auto
    then show ?thesis using False by (simp add: filter_empty_conv)
  qed
  then have m: "map (\<lambda>j. filter ?P (node_edges nodes embeddings j)) [0..<length nodes]
      = map (\<lambda>j. if j = i then node_edges nodes embeddings i else []) [0..<length nodes]"
    by (intro map_cong) auto
  have "edges_from nodes embeddings i
      = concat (map (\<lambda>j. filter ?P (node_edges nodes embeddings j)) [0..<length nodes])"
    by (simp add: edges_from_def build_edges_def filter_concat comp_def)
  then have "edges_from nodes embeddings i
      = concat (map (\<lambda>j. if j = i then node_edges nodes embeddings i else []) [0..<length nodes])"
    by (simp only: m)
  also have "\<dots> = node_edges nodes embeddings i"
    using i by (intro concat_single) auto
  finally show ?thesis .
qed

lemma filter_upt_except:
  assumes "i < n"
  shows "filter (\<lambda>j. \<not> i = j) [0..<n] = [0..<i] @ [Suc i..<n]"
proof -
  have "[0..<n] = [0..<i] @ [i..<n]"
    using assms upt_add_eq_append [of 0 i "n - i"] by simp
  moreover have "[i..<n] = i # [Suc i..<n]"
    using assms by (rule upt_conv_Cons)
  ultimately have "[0..<n] = [0..<i] @ i # [Suc i..<n]" by simp
  then have "filter (\<lambda>j. \<not> i = j) [0..<n]
      = filter (\<lambda>j. \<not> i = j) [0..<i] @ filter (\<lambda>j. \<not> i = j) [Suc i..<n]"
    by simp
  moreover have "filter (\<lambda>j. \<not> i = j) [0..<i] = [0..<i]"
    by (rule filter_True) auto
  moreover have "filter (\<lambda>j. \<not> i = j) [Suc i..<n] = [Suc i..<n]"
    by (rule filter_True) auto
  ultimately show ?thesis by simp
qed

lemma top5_length_eq:
  assumes "i < length nodes"
  shows "length (top5 nodes embeddings i) = min 5 (length nodes - 1)"
proof -
  have "length (node_scores nodes embeddings i) = length nodes - 1"
    using assms by (simp add: node_scores_def filter_upt_except)
  then show ?thesis by (simp add: top5_take js_sort_length)
qed

lemma node_edges_targets:
  "map target_node_id (node_edges nodes embeddings i)
     = map (\<lambda>t. id_node (nodes ! fst t)) (top5 nodes embeddings i)"
  by (simp add: node_edges_def comp_def)

lemma node_edges_weights:
  "map EdgeRecord.weight (node_edges nodes embeddings i) = map snd (top5 nodes embeddings i)"
  by (simp add: node_edges_def comp_def)

lemma node_edges_target_index:
  assumes d: "distinct (map id_node nodes)" and j: "j < length nodes"
  shows "id_node (nodes ! j) \<in> target_node_id ` set (node_edges nodes embeddings i)
     \<longleftrightarrow> j \<in> fst ` set (top5 nodes embeddings i)"
proof
  assume "id_node (nodes ! j) \<in> target_node_id ` set (node_edges nodes embeddings i)"
  then obtain t where t: "t \<in> set (top5 nodes embeddings i)"
      "id_node (nodes ! j) = id_node (nodes ! fst t)"
    by (auto simp: node_edges_def)
  have "fst t < length nodes" using top5_set [OF t(1)] by simp
  then have "j = fst t" using id_node_inject [OF d j, of "fst t"] t(2) by blast
  then show "j \<in> fst ` set (top5 nodes embeddings i)" using t(1) by simp
next
  assume "j \<in> fst ` set (top5 nodes embeddings i)"
  then show "id_node (nodes ! j) \<in> target_node_id ` set (node_edges nodes embeddings i)"
    by (auto simp: node_edges_def image_iff)
qed

text \<open>
  C2. For nodes with distinct ids and one embedding each, the edges that leave node \<open>i\<close> are
  five, or all other nodes when there are fewer; none is a self-edge; each goes to another node
  of the list, a different one each, with the cosine of the two embeddings as weight; they are
  in non-increasing order of weight; and every neighbour that got an edge has a greater cosine
  than every neighbour that got none, or the same cosine and an earlier place in the list.
\<close>

theorem graph_builder_top5:
  assumes d: "distinct (map id_node nodes)"
    and len: "length embeddings = length nodes"
    and i: "i < length nodes"
    and defined: "\<forall>a\<in>set embeddings. \<forall>b\<in>set embeddings. cosine_defined a b"
  shows "length (edges_from nodes embeddings i) = min 5 (length nodes - 1)
    \<and> (\<forall>e\<in>set (edges_from nodes embeddings i).
          target_node_id e \<noteq> source_node_id e
        \<and> (\<exists>j<length nodes. j \<noteq> i \<and> target_node_id e = id_node (nodes ! j)
              \<and> EdgeRecord.weight e = cosine (embeddings ! i) (embeddings ! j)))
    \<and> distinct (map target_node_id (edges_from nodes embeddings i))
    \<and> sorted_wrt (\<lambda>a b. EdgeRecord.weight b \<le> EdgeRecord.weight a) (edges_from nodes embeddings i)
    \<and> (\<forall>j<length nodes. \<forall>k<length nodes.
          j \<noteq> i \<and> k \<noteq> i
          \<and> id_node (nodes ! j) \<in> target_node_id ` set (edges_from nodes embeddings i)
          \<and> id_node (nodes ! k) \<notin> target_node_id ` set (edges_from nodes embeddings i) \<longrightarrow>
          cosine (embeddings ! i) (embeddings ! k) < cosine (embeddings ! i) (embeddings ! j)
          \<or> (cosine (embeddings ! i) (embeddings ! k) = cosine (embeddings ! i) (embeddings ! j)
              \<and> j < k))"
proof -
  let ?es = "node_edges nodes embeddings i"
  let ?t = "top5 nodes embeddings i"
  have e: "edges_from nodes embeddings i = ?es"
    by (rule edges_from_node_edges [OF d i])
  have c1: "length ?es = min 5 (length nodes - 1)"
    using top5_length_eq [OF i, of embeddings] by (simp add: node_edges_def)
  have c2: "target_node_id e \<noteq> source_node_id e
        \<and> (\<exists>j<length nodes. j \<noteq> i \<and> target_node_id e = id_node (nodes ! j)
              \<and> EdgeRecord.weight e = cosine (embeddings ! i) (embeddings ! j))"
    if in_es: "e \<in> set ?es" for e
  proof -
    obtain a b where ab: "(a, b) \<in> set ?t" "source_node_id e = id_node (nodes ! i)"
        "target_node_id e = id_node (nodes ! a)" "EdgeRecord.weight e = b"
      using in_es by (auto simp: node_edges_def)
    define t where "t = (a, b)"
    have t: "t \<in> set ?t" "source_node_id e = id_node (nodes ! i)"
        "target_node_id e = id_node (nodes ! fst t)" "EdgeRecord.weight e = snd t"
      using ab by (simp_all add: t_def)
    note p = top5_set [OF t(1)]
    have "id_node (nodes ! fst t) \<noteq> id_node (nodes ! i)"
      using id_node_inject [OF d _ i, of "fst t"] p by blast
    then show ?thesis using t p by auto
  qed
  have c3: "distinct (map target_node_id ?es)"
  proof -
    have "inj_on (\<lambda>j. id_node (nodes ! j)) (fst ` set ?t)"
    proof (rule inj_onI)
      fix x y assume "x \<in> fst ` set ?t" "y \<in> fst ` set ?t"
        and eq: "id_node (nodes ! x) = id_node (nodes ! y)"
      then have "x < length nodes" "y < length nodes" using top5_set by auto
      then show "x = y" using id_node_inject [OF d, of x y] eq by blast
    qed
    moreover have "distinct (map fst ?t)" by (rule top5_distinct)
    ultimately have "distinct (map (\<lambda>j. id_node (nodes ! j)) (map fst ?t))"
      by (subst distinct_map) simp
    then show ?thesis by (simp add: node_edges_targets comp_def)
  qed
  have c4: "sorted_wrt (\<lambda>a b. EdgeRecord.weight b \<le> EdgeRecord.weight a) ?es"
  proof -
    have "sorted_wrt (\<lambda>x y. y \<le> x) (map snd ?t)"
      using top5_sorted [of nodes embeddings i] by (simp add: sorted_wrt_map)
    then have "sorted_wrt (\<lambda>x y. y \<le> x) (map EdgeRecord.weight ?es)"
      by (simp only: node_edges_weights)
    then show ?thesis by (simp only: sorted_wrt_map)
  qed
  have c5: "cosine (embeddings ! i) (embeddings ! k) < cosine (embeddings ! i) (embeddings ! j)
          \<or> (cosine (embeddings ! i) (embeddings ! k) = cosine (embeddings ! i) (embeddings ! j)
              \<and> j < k)"
    if "j < length nodes" "k < length nodes" "j \<noteq> i" "k \<noteq> i"
      "id_node (nodes ! j) \<in> target_node_id ` set ?es"
      "id_node (nodes ! k) \<notin> target_node_id ` set ?es" for j k
  proof -
    have "j \<in> fst ` set ?t" using that(5) node_edges_target_index [OF d that(1)] by simp
    then obtain s where s: "(j, s) \<in> set ?t" by auto
    then have sv: "s = cosine (embeddings ! i) (embeddings ! j)"
      using top5_set [OF s] by simp
    have "k \<notin> fst ` set ?t" using that(6) node_edges_target_index [OF d that(2)] by simp
    then show ?thesis using top5_best [OF s that(2,4)] unfolding sv by simp
  qed
  show ?thesis unfolding e using c1 c2 c3 c4 c5 by blast
qed

lemma sum_squares_uminus: "sum_squares (map uminus v) = sum_squares v"
  by (simp add: sum_squares_eq comp_def)

lemma cosine_opposite_left:
  assumes "sum_squares v \<noteq> 0"
  shows "cosine (map uminus v) v = - 1"
proof -
  let ?q = "\<Sum>x\<leftarrow>v. x * x"
  have "0 < ?q" using assms sum_squares_nonneg [of v] by (simp add: sum_squares_eq less_le)
  then have q: "sqrt ?q * sqrt ?q = ?q" "?q \<noteq> 0" by simp_all
  have "(\<Sum>i<length v. map uminus v ! i * v ! i) = - ?q"
    by (simp add: sum_negf sum_nth_squares)
  moreover have "(\<Sum>i<length v. map uminus v ! i * map uminus v ! i) = ?q"
    by (simp add: sum_nth_squares)
  ultimately show ?thesis using q by (simp add: cosine_sums sum_nth_squares)
qed

lemma cosine_opposite_both:
  assumes "sum_squares v \<noteq> 0"
  shows "cosine (map uminus v) (map uminus v) = 1"
  using assms by (simp add: cosine_self sum_squares_uminus)

lemma example_embeddings:
  "embedding node_a = localEmbedding (utf16 ''graph'')"
  "embedding node_b = localEmbedding (utf16 ''graph'')"
  "embedding node_c = map uminus (localEmbedding (utf16 ''graph''))"
  "embedding node_d = map uminus (localEmbedding (utf16 ''graph''))"
  by (simp_all add: node_a_def node_b_def node_c_def node_d_def)

lemma example_cosines:
  "cosine (localEmbedding t) (map uminus (localEmbedding t)) = - 1"
  "cosine (map uminus (localEmbedding t)) (localEmbedding t) = - 1"
  "cosine (map uminus (localEmbedding t)) (map uminus (localEmbedding t)) = 1"
  "cosine (localEmbedding t) (localEmbedding t) = 1"
  by (simp_all add: cosine_opposite cosine_opposite_left cosine_opposite_both cosine_self
      localEmbedding_sum_squares)

lemma example_pairs_defined:
  "\<forall>a\<in>set (map embedding [node_a, node_c, node_d]).
     \<forall>b\<in>set (map embedding [node_a, node_c, node_d]). cosine_defined a b"
  by (simp add: example_embeddings cosine_defined_def localEmbedding_length
      localEmbedding_sum_squares sum_squares_uminus)

lemma build_edges_acd:
  "map (\<lambda>e. (source_node_id e, target_node_id e, EdgeRecord.weight e))
     (build_edges [node_a, node_c, node_d] (map embedding [node_a, node_c, node_d]))
   = map (\<lambda>e. (source_node_id e, target_node_id e, EdgeRecord.weight e)) edges_acd"
  by (simp add: build_edges_def node_edges_def top5_def node_scores_def js_sort_def js_slice_def
      example_embeddings example_cosines example_ids edges_acd_def edge_fields upt_rec)

theorem graph_builder_top5_witness:
  "length (edges_from [node_a, node_c, node_d] (map embedding [node_a, node_c, node_d]) 1) = 2
   \<and> map (\<lambda>e. (source_node_id e, target_node_id e, EdgeRecord.weight e))
        (edges_from [node_a, node_c, node_d] (map embedding [node_a, node_c, node_d]) 1)
      = [(utf16 ''c'', utf16 ''d'', 1), (utf16 ''c'', utf16 ''a'', - 1)]
   \<and> distinct (map target_node_id
        (edges_from [node_a, node_c, node_d] (map embedding [node_a, node_c, node_d]) 1))
   \<and> sorted_wrt (\<lambda>a b. EdgeRecord.weight b \<le> EdgeRecord.weight a)
        (edges_from [node_a, node_c, node_d] (map embedding [node_a, node_c, node_d]) 1)"
proof -
  let ?nodes = "[node_a, node_c, node_d]"
  let ?embs = "map embedding ?nodes"
  have d: "distinct (map id_node ?nodes)" by (simp add: example_ids)
  have l: "length ?embs = length ?nodes" by simp
  have i: "(1::nat) < length ?nodes" by simp
  note t = graph_builder_top5 [OF d l i example_pairs_defined]
  have "map (\<lambda>e. (source_node_id e, target_node_id e, EdgeRecord.weight e))
        (edges_from ?nodes ?embs 1)
      = [(utf16 ''c'', utf16 ''d'', 1), (utf16 ''c'', utf16 ''a'', - 1)]"
    unfolding edges_from_node_edges [OF d i]
    by (simp add: node_edges_def top5_def node_scores_def js_sort_def js_slice_def
      example_embeddings example_cosines example_ids upt_rec)
  moreover have "length (edges_from ?nodes ?embs 1) = 2" using t by simp
  ultimately show ?thesis using t by blast
qed

text \<open>
  In the handler the graph builder runs on the nodes just created and their embeddings; these
  embeddings always have defined cosines, and the ids are distinct when the database never
  hands out an id twice.
\<close>

lemma ingested_nodes_length: "length (ingested_nodes gen n chunks) = length chunks"
  by (induction chunks arbitrary: n) simp_all

lemma ingested_nodes_embeddings:
  "map embedding (ingested_nodes gen n chunks) = map localEmbedding chunks"
  by (induction chunks arbitrary: n) simp_all

lemma ingested_nodes_ids:
  "map id_node (ingested_nodes gen n chunks) = map gen [n..<n + length chunks]"
  by (induction chunks arbitrary: n) (simp_all add: upt_rec)

lemma ingested_nodes_distinct:
  "inj gen \<Longrightarrow> distinct (map id_node (ingested_nodes gen n chunks))"
  by (simp add: ingested_nodes_ids distinct_map inj_on_def inj_def)

lemma fold_embed_chunk:
  "fold (embed_chunk fid) chunks (embs, nodes, db)
     = (embs @ map localEmbedding chunks,
        nodes @ ingested_nodes (generated_ids db) (next_id db) chunks,
        db\<lparr>nodes_table := nodes_table db
               @ map (Pair fid) (ingested_nodes (generated_ids db) (next_id db) chunks),
           next_id := next_id db + length chunks\<rparr>)"
proof (induction chunks arbitrary: embs nodes db)
  case Nil
  show ?case by simp
next
  case (Cons chunk chunks)
  let ?node = "\<lparr>id_node = generated_ids db (next_id db), node_type = utf16 ''text'',
      NodeRecord.content = chunk, embedding = localEmbedding chunk, metadata = Some Map.empty\<rparr>"
  let ?db = "db\<lparr>nodes_table := nodes_table db @ [(fid, ?node)], next_id := next_id db + 1\<rparr>"
  have step: "embed_chunk fid chunk (embs, nodes, db)
      = (embs @ [localEmbedding chunk], nodes @ [?node], ?db)"
    by (simp add: embed_chunk_def insert_node_def Let_def)
  have "fold (embed_chunk fid) (chunk # chunks) (embs, nodes, db)
      = fold (embed_chunk fid) chunks (embs @ [localEmbedding chunk], nodes @ [?node], ?db)"
    by (simp only: fold_simps step)
  also have "\<dots> = ((embs @ [localEmbedding chunk]) @ map localEmbedding chunks,
        (nodes @ [?node]) @ ingested_nodes (generated_ids ?db) (next_id ?db) chunks,
        ?db\<lparr>nodes_table := nodes_table ?db
               @ map (Pair fid) (ingested_nodes (generated_ids ?db) (next_id ?db) chunks),
           next_id := next_id ?db + length chunks\<rparr>)"
    by (rule Cons.IH)
  finally show ?case by simp
qed

lemma process_file_edges:
  assumes "uploads db (fileName req) = Some txt"
  shows "edges_table (snd (process_file db req))
     = edges_table db
       @ build_edges (ingested_nodes (generated_ids db) (next_id db) (splitIntoChunks txt))
           (map embedding (ingested_nodes (generated_ids db) (next_id db) (splitIntoChunks txt)))"
  using assms
  by (simp add: process_file_def fold_embed_chunk ingested_nodes_embeddings Let_def)

lemma ingested_embeddings_defined:
  "\<forall>a\<in>set (map embedding (ingested_nodes gen n chunks)).
     \<forall>b\<in>set (map embedding (ingested_nodes gen n chunks)). cosine_defined a b"
  unfolding ingested_nodes_embeddings
  by (auto simp: cosine_defined_def localEmbedding_length localEmbedding_sum_squares)

section \<open>Label resolver\<close>

lemma find_append_option:
  "find P (xs @ ys) = (case find P xs of Some x \<Rightarrow> Some x | None \<Rightarrow> find P ys)"
  by (induction xs) auto

lemma preferred_label_find:
  "preferred_label m keys
     = map_option trim (find (\<lambda>v. trim v \<noteq> [])
         (concat (map (\<lambda>key. case m key of Some (JStr v) \<Rightarrow> [v] | _ \<Rightarrow> []) keys)))"
  by (induction keys) (auto split: option.splits json.splits)

lemma keyword_label_find:
  "keyword_label ks
     = map_option trim (find (\<lambda>v. trim v \<noteq> [])
         (concat (map (\<lambda>keyword. case keyword of JStr v \<Rightarrow> [v] | _ \<Rightarrow> []) ks)))"
  by (induction ks) (auto split: json.splits)

lemma extractMetadataLabel_find:
  "extractMetadataLabel md
     = map_option trim (find (\<lambda>v. trim v \<noteq> []) (metadata_strings md))"
proof (cases md)
  case None
  then show ?thesis by (simp add: extractMetadataLabel_def metadata_strings_def)
next
  case (Some m)
  show ?thesis
    unfolding Some extractMetadataLabel_def metadata_strings_def
    by (simp add: find_append_option preferred_label_find keyword_label_find
        split: option.splits json.splits)
qed

lemma extractMetadataLabel_nonempty: "extractMetadataLabel md = Some v \<Longrightarrow> v \<noteq> []"
  unfolding extractMetadataLabel_find by (auto simp: find_Some_iff)

lemma deriveNodeLabel_metadata:
  "deriveNodeLabel (Some node)
     = (case find (\<lambda>v. trim v \<noteq> []) (metadata_strings (metadata node)) of
          Some v \<Rightarrow> trim v
        | None \<Rightarrow> content_label node)"
proof (cases "extractMetadataLabel (metadata node)")
  case None
  then show ?thesis
    by (simp add: deriveNodeLabel_def extractMetadataLabel_find split: option.splits)
next
  case (Some l)
  then have "l \<noteq> []" by (rule extractMetadataLabel_nonempty)
  then show ?thesis using Some
    by (auto simp: deriveNodeLabel_def extractMetadataLabel_find split: option.splits)
qed

lemma js_space_space: "js_space 0x20" and js_space_cr: "js_space 0x0D" and js_space_lf: "js_space 0x0A"
  by (simp_all add: js_space_def)

lemma collapse_spaces_only_space:
  "c \<in> set (collapse_spaces s) \<Longrightarrow> js_space c \<Longrightarrow> c = 0x20"
  by (induction s arbitrary: c rule: collapse_spaces.induct) (auto split: if_splits)

lemma replace_line_breaks_id:
  assumes "\<forall>c\<in>set t. js_space c \<longrightarrow> c = 0x20"
  shows "replace_line_breaks t = t"
proof -
  have "(if c = 0x0D \<or> c = 0x0A then 0x20 else c) = c" if "c \<in> set t" for c
    using assms that js_space_cr js_space_lf by auto
  then show ?thesis unfolding replace_line_breaks_def by (simp add: map_idI)
qed

lemma split_space_nonempty: "split_space s \<noteq> []"
  by (induction s) (auto split: list.splits)

lemma words_of_Nil: "words_of [] = []"
  by (simp add: words_of.simps)

lemma words_of_space: "js_space c \<Longrightarrow> words_of (c # cs) = words_of (dropWhile js_space cs)"
  by (subst words_of.simps) simp

lemma words_of_word:
  "\<not> js_space c \<Longrightarrow> words_of (c # cs)
     = (c # takeWhile (\<lambda>c. \<not> js_space c) cs) # words_of (dropWhile (\<lambda>c. \<not> js_space c) cs)"
  by (subst words_of.simps) simp

lemma words_of_dropWhile: "words_of (dropWhile js_space s) = words_of s"
proof (induction s)
  case Nil
  then show ?case by simp
next
  case (Cons c cs)
  then show ?case by (simp add: words_of_space)
qed

lemma split_collapse:
  "\<exists>w ws. split_space (collapse_spaces s) = w # ws
     \<and> w = takeWhile (\<lambda>c. \<not> js_space c) s
     \<and> filter (\<lambda>w. w \<noteq> []) ws = words_of (dropWhile (\<lambda>c. \<not> js_space c) s)"
proof (induction s rule: collapse_spaces.induct)
  case 1
  show ?case by (simp add: words_of_Nil)
next
  case (2 c cs)
  show ?case
  proof (cases "js_space c")
    case True
    obtain w ws where i: "split_space (collapse_spaces (dropWhile js_space cs)) = w # ws"
        "w = takeWhile (\<lambda>c. \<not> js_space c) (dropWhile js_space cs)"
        "filter (\<lambda>w. w \<noteq> []) ws
           = words_of (dropWhile (\<lambda>c. \<not> js_space c) (dropWhile js_space cs))"
      using 2(1) [OF True] by blast
    have "filter (\<lambda>w. w \<noteq> []) (w # ws) = words_of (dropWhile js_space cs)"
    proof (cases "dropWhile js_space cs")
      case Nil
      show ?thesis using i unfolding Nil by (simp add: words_of_Nil)
    next
      case (Cons d ds)
      then have "\<not> js_space d" using hd_dropWhile [of js_space cs] by simp
      then show ?thesis using i unfolding Cons by (simp add: words_of_word)
    qed
    then show ?thesis using True i(1) by (simp add: words_of_space)
  next
    case False
    obtain w ws where i: "split_space (collapse_spaces cs) = w # ws"
        "w = takeWhile (\<lambda>c. \<not> js_space c) cs"
        "filter (\<lambda>w. w \<noteq> []) ws = words_of (dropWhile (\<lambda>c. \<not> js_space c) cs)"
      using 2(2) [OF False] by blast
    have "c \<noteq> 0x20" using False js_space_space by auto
    then show ?thesis using False i by simp
  qed
qed

lemma words_split_collapse:
  "filter (\<lambda>w. w \<noteq> []) (split_space (collapse_spaces s)) = words_of s"
proof -
  obtain w ws where i: "split_space (collapse_spaces s) = w # ws"
      "w = takeWhile (\<lambda>c. \<not> js_space c) s"
      "filter (\<lambda>w. w \<noteq> []) ws = words_of (dropWhile (\<lambda>c. \<not> js_space c) s)"
    using split_collapse by blast
  show ?thesis
  proof (cases s)
    case Nil
    then show ?thesis by (simp add: words_of_Nil)
  next
    case (Cons c cs)
    show ?thesis
    proof (cases "js_space c")
      case True
      then show ?thesis using i Cons by simp
    next
      case False
      then show ?thesis using i Cons by (simp add: words_of_word)
    qed
  qed
qed

lemma words_of_nonempty: "w \<in> set (words_of s) \<Longrightarrow> w \<noteq> []"
proof (induction s arbitrary: w rule: words_of.induct)
  case (1 s)
  show ?case
  proof (cases s)
    case Nil
    then show ?thesis using 1(3) by (simp add: words_of_Nil)
  next
    case (Cons c cs)
    show ?thesis
    proof (cases "js_space c")
      case True
      then have "words_of s = words_of (dropWhile js_space s)"
        using Cons by (simp add: words_of_space)
      then show ?thesis using 1(1) 1(3) Cons True by simp
    next
      case False
      then have "words_of s = (c # takeWhile (\<lambda>c. \<not> js_space c) cs)
           # words_of (dropWhile (\<lambda>c. \<not> js_space c) s)"
        using Cons by (simp add: words_of_word)
      then show ?thesis using 1(2) 1(3) Cons False by auto
    qed
  qed
qed

lemma split_space_snoc_space: "split_space (a @ [0x20]) = split_space a @ [[]]"
proof (induction a)
  case Nil
  show ?case by simp
next
  case (Cons c a)
  obtain w ws where "split_space a = w # ws"
    using split_space_nonempty [of a] by (cases "split_space a") auto
  then show ?case using Cons by (simp split: list.splits)
qed

lemma words_drop_leading:
  assumes "\<forall>c\<in>set t. js_space c \<longrightarrow> c = 0x20"
  shows "filter (\<lambda>w. w \<noteq> []) (split_space (dropWhile js_space t))
     = filter (\<lambda>w. w \<noteq> []) (split_space t)"
  using assms by (induction t) auto

lemma words_drop_trailing:
  assumes "\<forall>c\<in>set u. js_space c \<longrightarrow> c = 0x20"
  shows "filter (\<lambda>w. w \<noteq> []) (split_space (rev (dropWhile js_space (rev u))))
     = filter (\<lambda>w. w \<noteq> []) (split_space u)"
  using assms
proof (induction u rule: rev_induct)
  case Nil
  show ?case by simp
next
  case (snoc x xs)
  show ?case
  proof (cases "js_space x")
    case True
    then have x: "x = 0x20" using snoc.prems by simp
    have "filter (\<lambda>w. w \<noteq> []) (split_space (rev (dropWhile js_space (rev xs))))
        = filter (\<lambda>w. w \<noteq> []) (split_space xs)"
      using snoc by simp
    then show ?thesis using True unfolding x by (simp add: split_space_snoc_space)
  next
    case False
    then show ?thesis by simp
  qed
qed

lemma words_trim:
  assumes "\<forall>c\<in>set t. js_space c \<longrightarrow> c = 0x20"
  shows "filter (\<lambda>w. w \<noteq> []) (split_space (trim t)) = filter (\<lambda>w. w \<noteq> []) (split_space t)"
proof -
  have "\<forall>c\<in>set (dropWhile js_space t). js_space c \<longrightarrow> c = 0x20"
    using assms by (auto dest: set_dropWhileD)
  then have "filter (\<lambda>w. w \<noteq> []) (split_space (trim t))
      = filter (\<lambda>w. w \<noteq> []) (split_space (dropWhile js_space t))"
    unfolding trim_def by (rule words_drop_trailing)
  then show ?thesis using words_drop_leading [OF assms] by simp
qed

lemma cleaned_words:
  "filter (\<lambda>w. w \<noteq> []) (split_space (trim (replace_line_breaks (collapse_spaces s))))
     = words_of s"
proof -
  have o: "\<forall>c\<in>set (collapse_spaces s). js_space c \<longrightarrow> c = 0x20"
    using collapse_spaces_only_space by blast
  show ?thesis
    by (simp add: replace_line_breaks_id [OF o] words_trim [OF o] words_split_collapse)
qed

lemma join_space_nonempty: "ws \<noteq> [] \<Longrightarrow> hd ws \<noteq> [] \<Longrightarrow> join_space ws \<noteq> []"
  by (induction ws rule: join_space.induct) auto

lemma content_label_words: "content_label node = trimmed_content_label node"
proof -
  let ?cleaned = "trim (replace_line_breaks (collapse_spaces (NodeRecord.content node)))"
  let ?ws = "words_of (NodeRecord.content node)"
  have w: "filter (\<lambda>w. w \<noteq> []) (split_space ?cleaned) = ?ws" by (rule cleaned_words)
  show ?thesis
  proof (cases "?ws = []")
    case True
    then show ?thesis
      by (simp add: content_label_def trimmed_content_label_def w Let_def LABEL_WORD_LIMIT_def
          LABEL_CHAR_LIMIT_def)
  next
    case False
    have c: "?cleaned \<noteq> []"
    proof
      assume "?cleaned = []"
      then have "filter (\<lambda>w. w \<noteq> []) (split_space ?cleaned) = []" by simp
      then show False using w False by simp
    qed
    have "hd ?ws \<in> set ?ws" using False by (rule hd_in_set)
    then have "hd ?ws \<noteq> []" by (rule words_of_nonempty)
    then have "join_space (take 3 ?ws) \<noteq> []"
      using False by (intro join_space_nonempty) (simp_all add: hd_take)
    then show ?thesis using False c
      by (simp add: content_label_def trimmed_content_label_def w Let_def LABEL_WORD_LIMIT_def
          LABEL_CHAR_LIMIT_def)
  qed
qed

lemma deriveNodeLabel_trimmed: "deriveNodeLabel (Some node) = trimmed_label node"
  unfolding deriveNodeLabel_metadata trimmed_label_def content_label_words by (rule refl)

text \<open>
  C9, as amended. The label of a node is, in this order: the first string among the metadata
  fields \<open>label\<close>, \<open>title\<close>, \<open>name\<close>, \<open>keyword\<close>, \<open>heading\<close>, \<open>topic\<close> and then the array
  \<open>keywords\<close> that is not empty once trimmed, returned trimmed; else the first three words
  of the content joined by single spaces and, when these are longer than 40 code units,
  their first 40 code units with the white space at the ends of this cut removed, followed
  by \<open>...\<close>; else the node id. A node whose metadata has the label \<open>Foo\<close> is labelled \<open>Foo\<close>
  whatever its content.
\<close>

theorem deriveNodeLabel_priority:
  "deriveNodeLabel (Some node) = trimmed_label node
   \<and> ((\<exists>m. metadata node = Some m \<and> m (utf16 ''label'') = Some (JStr (utf16 ''Foo''))) \<longrightarrow>
        deriveNodeLabel (Some node) = utf16 ''Foo'')"
proof -
  have a: "deriveNodeLabel (Some node) = trimmed_label node"
    by (rule deriveNodeLabel_trimmed)
  have "find (\<lambda>v. trim v \<noteq> []) (metadata_strings (metadata node)) = Some (utf16 ''Foo'')"
    if "metadata node = Some m" "m (utf16 ''label'') = Some (JStr (utf16 ''Foo''))" for m
    using that by (simp add: metadata_strings_def preferredKeys_def trim_def utf16_def js_space_def)
  then have "trimmed_label node = utf16 ''Foo''"
    if "metadata node = Some m" "m (utf16 ''label'') = Some (JStr (utf16 ''Foo''))" for m
    using that by (simp add: trimmed_label_def trim_def utf16_def js_space_def)
  then show ?thesis using a by auto
qed

theorem deriveNodeLabel_priority_witness:
  "metadata node_foo = Some [utf16 ''label'' \<mapsto> JStr (utf16 ''Foo'')]
   \<and> deriveNodeLabel (Some node_foo) = utf16 ''Foo''"
proof -
  have m: "metadata node_foo = Some [utf16 ''label'' \<mapsto> JStr (utf16 ''Foo'')]"
    by (simp add: node_foo_def)
  then have "\<exists>m. metadata node_foo = Some m \<and> m (utf16 ''label'') = Some (JStr (utf16 ''Foo''))"
    by simp
  then show ?thesis using deriveNodeLabel_priority [of node_foo] m by blast
qed

lemma words_of_long_words:
  "words_of (utf16 ''abcdefghijklmnopqrst ABCDEFGHIJKLMNOPQR 0123456789 tail'')
     = [utf16 ''abcdefghijklmnopqrst'', utf16 ''ABCDEFGHIJKLMNOPQR'', utf16 ''0123456789'',
        utf16 ''tail'']"
  by (simp add: words_of.simps utf16_def js_space_def)

text \<open>
  A label of one space is a non-empty string, and the first the metadata offers; the
  resolver passes over it and labels the node by its content. The first three words of the
  second node take 50 code units and the 40th is a space: the resolver removes it, and the
  label has 39 code units before the \<open>...\<close>, not the first 40.
\<close>

theorem deriveNodeLabel_blank_label:
  "stated_label node_blank_label = utf16 '' ''
   \<and> deriveNodeLabel (Some node_blank_label) = utf16 ''x''
   \<and> deriveNodeLabel (Some node_blank_label) \<noteq> stated_label node_blank_label
   \<and> stated_label node_long_words = utf16 ''abcdefghijklmnopqrst ABCDEFGHIJKLMNOPQR ...''
   \<and> deriveNodeLabel (Some node_long_words) = utf16 ''abcdefghijklmnopqrst ABCDEFGHIJKLMNOPQR...''
   \<and> deriveNodeLabel (Some node_long_words) \<noteq> stated_label node_long_words"
proof -
  have s: "metadata_strings (metadata node_blank_label) = [utf16 '' '']"
    by (simp add: metadata_strings_def node_blank_label_def preferredKeys_def)
  have a: "stated_label node_blank_label = utf16 '' ''"
    by (simp add: stated_label_def s utf16_def)
  have "words_of (utf16 ''x'') = [utf16 ''x'']"
    by (simp add: words_of.simps utf16_def js_space_def)
  then have "trimmed_content_label node_blank_label = utf16 ''x''"
    by (simp add: trimmed_content_label_def node_blank_label_def) (simp add: utf16_def)
  then have b: "deriveNodeLabel (Some node_blank_label) = utf16 ''x''"
    by (simp add: deriveNodeLabel_trimmed trimmed_label_def s)
       (simp add: trim_def utf16_def js_space_def)
  have t: "metadata_strings (metadata node_long_words) = []"
    by (simp add: metadata_strings_def node_long_words_def preferredKeys_def)
  have cont: "NodeRecord.content node_long_words
      = utf16 ''abcdefghijklmnopqrst ABCDEFGHIJKLMNOPQR 0123456789 tail''"
    by (simp add: node_long_words_def)
  have "stated_content_label node_long_words
      = utf16 ''abcdefghijklmnopqrst ABCDEFGHIJKLMNOPQR ...''"
    unfolding stated_content_label_def cont words_of_long_words
    by (simp add: utf16_def)
  then have c: "stated_label node_long_words = utf16 ''abcdefghijklmnopqrst ABCDEFGHIJKLMNOPQR ...''"
    by (simp add: stated_label_def t)
  have "trimmed_content_label node_long_words
      = utf16 ''abcdefghijklmnopqrst ABCDEFGHIJKLMNOPQR...''"
    unfolding trimmed_content_label_def cont words_of_long_words
    by (simp add: utf16_def trim_def js_space_def)
  then have d: "deriveNodeLabel (Some node_long_words) = utf16 ''abcdefghijklmnopqrst ABCDEFGHIJKLMNOPQR...''"
    by (simp add: deriveNodeLabel_trimmed trimmed_label_def t)
  show ?thesis unfolding a b c d by (simp add: utf16_def)
qed

section \<open>Properties of the handlers' outcome\<close>

text \<open>
  C3. A search whose file scope has no nodes fails with the message
  \<open>No nodes found for this file\<close>: the handler's result is the error alone, with no
  vector, graph or hybrid results and no visualization.
\<close>

theorem hybrid_search_empty_scope:
  assumes "select_nodes_by_file store (SearchRequest.fileId req) = Some []"
  shows "hybrid_search store req = Inl (Error (utf16 ''No nodes found for this file''))"
  using assms by (simp add: hybrid_search_def)

theorem hybrid_search_empty_scope_witness:
  "hybrid_search
     \<lparr>select_nodes_by_file = (\<lambda>f. Some []), select_edges_by_source = (\<lambda>ids. Some []),
      select_nodes_by_id = (\<lambda>ids. Some [])\<rparr>
     \<lparr>query = utf16 ''graph'', SearchRequest.fileId = utf16 ''f1'', vectorWeight = 1 / 2,
      graphWeight = 1 / 2, topK = 10\<rparr>
   = Inl (Error (utf16 ''No nodes found for this file''))"
  by (rule hybrid_search_empty_scope) simp

text \<open>The same answer is given when the select returns no data at all.\<close>

lemma hybrid_search_no_data:
  assumes "select_nodes_by_file store (SearchRequest.fileId req) = None"
  shows "hybrid_search store req = Inl (Error (utf16 ''No nodes found for this file''))"
  using assms by (simp add: hybrid_search_def)

text \<open>
  C10. Ingesting a file whose text is empty creates no node and no edge, sets the status of
  the file row to \<open>completed\<close> and answers \<open>{success: true, nodesCreated: 0, edgesCreated: 0}\<close>.
\<close>

theorem process_file_empty_text:
  assumes "uploads db (fileName req) = Some []"
    and "files_status db (IngestRequest.fileId req) \<noteq> None"
  shows "fst (process_file db req) = Inr \<lparr>success = True, nodesCreated = 0, edgesCreated = 0\<rparr>
    \<and> nodes_table (snd (process_file db req)) = nodes_table db
    \<and> edges_table (snd (process_file db req)) = edges_table db
    \<and> files_status (snd (process_file db req)) (IngestRequest.fileId req)
        = Some (utf16 ''completed'')"
  using assms
  by (auto simp: process_file_def splitIntoChunks_Nil build_edges_def)

theorem process_file_empty_text_witness:
  "fst (process_file db_empty_upload
          \<lparr>IngestRequest.fileId = utf16 ''f1'', fileName = utf16 ''empty.txt''\<rparr>)
     = Inr \<lparr>success = True, nodesCreated = 0, edgesCreated = 0\<rparr>
   \<and> files_status (snd (process_file db_empty_upload
          \<lparr>IngestRequest.fileId = utf16 ''f1'', fileName = utf16 ''empty.txt''\<rparr>))
        (utf16 ''f1'') = Some (utf16 ''completed'')"
  using process_file_empty_text
    [of db_empty_upload "\<lparr>IngestRequest.fileId = utf16 ''f1'', fileName = utf16 ''empty.txt''\<rparr>"]
  by (simp add: db_empty_upload_def)

end
